theory Spec2Isabelle
  imports Main "HOL-Library.Multiset" "HOL-Library.Word"
begin

text \<open>
  A model of \<^verbatim>\<open>src/ext2/mapreduce/mapreduce.h\<close> of ulib: the partitioner, the loop of a
  task (\<^verbatim>\<open>task::run\<close>) as a transition system of workers that share a store, and
  \<^verbatim>\<open>job::exec\<close>, which splits the dataset into ranges, starts one worker per range and
  waits for all of them.  Dataset positions are offsets from \<^verbatim>\<open>begin()\<close>; the dataset is a
  list of records.
\<close>

section \<open>Machine integers of \<^verbatim>\<open>job::exec\<close>\<close>

text \<open>
  \<^verbatim>\<open>exec(int ntask)\<close> mixes \<^verbatim>\<open>int\<close> (32 bits) and \<^verbatim>\<open>size_t\<close> (64 bits, unsigned).
  In \<^verbatim>\<open>_dataset.size() / ntask\<close> and in \<^verbatim>\<open>len * i\<close> the \<^verbatim>\<open>int\<close> operand is converted
  to \<^verbatim>\<open>size_t\<close> (reduction modulo \<open>2 ^ 64\<close>) and the product wraps around.  Both are
  written out here on \<open>int\<close> and \<open>nat\<close>.
\<close>

definition size_t_of_int :: "int \<Rightarrow> nat" where
  "size_t_of_int i = nat (i mod 2 ^ 64)"

definition size_t_mul :: "nat \<Rightarrow> nat \<Rightarrow> nat" where
  "size_t_mul a b = (a * b) mod 2 ^ 64"

section \<open>Errors\<close>

text \<open>
  What is undefined behaviour or an exception in the C++ is an error value of the model:
  a negative array length in \<^verbatim>\<open>new T*[ntask]\<close>, the division \<^verbatim>\<open>size() / 0\<close>, an index
  outside the task array, a read of an array cell that was never written, and a
  dereference of an iterator outside the dataset.
\<close>

datatype error =
    BadArrayLength
  | DivisionByZero
  | OutOfBounds int
  | Uninitialised int
  | BadIterator

section \<open>Tasks and the task array\<close>

text \<open>
  A \<^verbatim>\<open>task\<close> object holds \<^verbatim>\<open>_begin\<close> and \<^verbatim>\<open>_end\<close>; an iterator into the dataset is its
  offset from \<^verbatim>\<open>_dataset.begin()\<close>.  (The third member, \<^verbatim>\<open>_store\<close>, refers to the one store
  all tasks share; it is a component of the system state below.)
\<close>

record task =
  t_begin :: nat
  t_end :: nat

definition new_task :: "nat \<Rightarrow> nat \<Rightarrow> task" where
  "new_task b e = \<lparr>t_begin = b, t_end = e\<rparr>"

text \<open>The half-open index interval a task is responsible for.\<close>

definition work_range :: "task \<Rightarrow> nat set" where
  "work_range t = {t_begin t ..< t_end t}"

text \<open>
  The array \<^verbatim>\<open>tasks\<close> of \<^verbatim>\<open>exec\<close>: \<^verbatim>\<open>new T*[ntask]\<close> gives \<open>ntask\<close> cells that hold no
  pointer yet.  Every subscript \<^verbatim>\<open>tasks[i]\<close> is checked against the length and logged in
  \<open>touched\<close>, in program order.
\<close>

record 'a array =
  cells :: "'a option list"
  touched :: "int list"

definition new_array :: "int \<Rightarrow> error + 'a array" where
  "new_array n =
     (if n < 0 then Inl BadArrayLength
      else Inr \<lparr>cells = replicate (nat n) None, touched = []\<rparr>)"

definition in_bounds :: "'a array \<Rightarrow> int \<Rightarrow> bool" where
  "in_bounds a i = (0 \<le> i \<and> i < int (length (cells a)))"

definition array_set :: "'a array \<Rightarrow> int \<Rightarrow> 'a \<Rightarrow> error + 'a array" where
  "array_set a i v =
     (if in_bounds a i
      then Inr (a\<lparr>cells := (cells a)[nat i := Some v], touched := touched a @ [i]\<rparr>)
      else Inl (OutOfBounds i))"

definition array_get :: "'a array \<Rightarrow> int \<Rightarrow> error + ('a \<times> 'a array)" where
  "array_get a i =
     (if in_bounds a i
      then (case cells a ! nat i of
              None \<Rightarrow> Inl (Uninitialised i)
            | Some v \<Rightarrow> Inr (v, a\<lparr>touched := touched a @ [i]\<rparr>))
      else Inl (OutOfBounds i))"

section \<open>\<^verbatim>\<open>job::exec\<close>: creating the tasks (lines 202 to 211)\<close>

text \<open>
  The loop \<^verbatim>\<open>for (int i = 0; i < ntask - 1; ++i)\<close> runs over the \<open>int\<close> list
  \<open>[0..ntask - 2]\<close>; its body stores a task for \<^verbatim>\<open>[begin() + len * i, begin() + len * (i + 1))\<close>.
\<close>

fun create_loop :: "nat \<Rightarrow> int list \<Rightarrow> task array \<Rightarrow> error + task array" where
  "create_loop len [] tasks = Inr tasks"
| "create_loop len (i # js) tasks =
     (case array_set tasks i
             (new_task (size_t_mul len (size_t_of_int i))
                       (size_t_mul len (size_t_of_int (i + 1)))) of
        Inl e \<Rightarrow> Inl e
      | Inr tasks' \<Rightarrow> create_loop len js tasks')"

text \<open>
  Lines 207 to 211, once \<^verbatim>\<open>len\<close> is known: the loop, and the last task, which is stored
  in \<^verbatim>\<open>tasks[ntask - 1]\<close> and ends at \<^verbatim>\<open>_dataset.end()\<close>.
\<close>

definition exec_fill :: "nat \<Rightarrow> nat \<Rightarrow> int \<Rightarrow> task array \<Rightarrow> error + task array" where
  "exec_fill len n ntask tasks =
     (case create_loop len [0..ntask - 2] tasks of
        Inl e \<Rightarrow> Inl e
      | Inr tasks' \<Rightarrow>
          array_set tasks' (ntask - 1)
            (new_task (size_t_mul len (size_t_of_int (ntask - 1))) n))"

text \<open>
  \<open>exec_create n ntask\<close> is \<^verbatim>\<open>exec\<close> up to line 211 on a dataset of \<open>n\<close> records: the
  allocation, the chunk length \<^verbatim>\<open>len = _dataset.size() / ntask\<close>, and lines 207 to 211.
\<close>

definition exec_create :: "nat \<Rightarrow> int \<Rightarrow> error + task array" where
  "exec_create n ntask =
     (case new_array ntask of
        Inl e \<Rightarrow> Inl e
      | Inr tasks \<Rightarrow>
          if size_t_of_int ntask = 0 then Inl DivisionByZero
          else
            let len = n div size_t_of_int ntask in
            exec_fill len n ntask tasks)"

text \<open>
  The loop of lines 214 and 215, \<^verbatim>\<open>delete tasks[i]\<close> for \<open>i\<close> in \<open>[0..ntask - 1]\<close>, as far
  as the array is concerned: it reads each cell.  (The destructor joins the thread; that
  is part of \<open>exec\<close> below.)
\<close>

fun delete_loop :: "int list \<Rightarrow> task array \<Rightarrow> error + task array" where
  "delete_loop [] tasks = Inr tasks"
| "delete_loop (i # js) tasks =
     (case array_get tasks i of
        Inl e \<Rightarrow> Inl e
      | Inr (t, tasks') \<Rightarrow> delete_loop js tasks')"

section \<open>The partitioner (lines 114 to 143)\<close>

text \<open>
  A partitioner holds a copy of the key.  The conversion of a key to \<^verbatim>\<open>uint64_t\<close> belongs
  to the key type, and the macro \<^verbatim>\<open>RAND_INT3_MIX64\<close> is defined in \<^verbatim>\<open>ulib/rand_tpl.h\<close>;
  both are parameters (\<open>conv\<close> and \<open>mix\<close>) of the conversion to \<^verbatim>\<open>size_t\<close>.
\<close>

record 'k partitioner =
  p_key :: 'k

definition partitioner :: "'k \<Rightarrow> 'k partitioner" where
  "partitioner k = \<lparr>p_key = k\<rparr>"

definition key :: "'k partitioner \<Rightarrow> 'k" where
  "key p = p_key p"

definition partitioner_size_t ::
    "('k \<Rightarrow> 64 word) \<Rightarrow> (64 word \<Rightarrow> 64 word) \<Rightarrow> 'k partitioner \<Rightarrow> 64 word" where
  "partitioner_size_t conv mix p = (let h = conv (p_key p) in mix h)"

definition partitioner_eq :: "'k partitioner \<Rightarrow> 'k partitioner \<Rightarrow> bool" where
  "partitioner_eq p other = (p_key p = key other)"

section \<open>Mapper, reducer and the shared store\<close>

text \<open>
  The template parameters of a job, as far as \<^verbatim>\<open>task::run\<close> uses them:
  \<open>mapper_key\<close> and \<open>mapper_value\<close> are \<^verbatim>\<open>M(rec).key()\<close> and \<^verbatim>\<open>M(rec).value()\<close> (pure
  virtual in \<^verbatim>\<open>mapper\<close>), \<open>reduce x v\<close> is the value that \<^verbatim>\<open>R(x) += v\<close> leaves in \<open>x\<close>
  (for \<^verbatim>\<open>reducer\<close>, the \<^verbatim>\<open>+=\<close> of the value type), and \<open>init_value\<close> is a default
  constructed value.
\<close>

record ('r, 'k, 'v) job_types =
  mapper_key :: "'r \<Rightarrow> 'k"
  mapper_value :: "'r \<Rightarrow> 'v"
  reduce :: "'v \<Rightarrow> 'v \<Rightarrow> 'v"
  init_value :: 'v

text \<open>
  Modelled from the spec: \<^verbatim>\<open>store.h\<close> is not among the sources.  The store maps keys to
  values; \<^verbatim>\<open>operator[]\<close> is the "indexed lookup-or-create by key" of section 6 of the
  specification: it returns the stored value, after default-constructing an entry on
  first access.  (The store of a job is keyed by partitioners, to which \<^verbatim>\<open>m.key()\<close> is
  converted implicitly; two partitioners are equal exactly when their keys are, so the
  model indexes the store by the key itself.)
\<close>

definition store_index :: "'v \<Rightarrow> ('k \<rightharpoonup> 'v) \<Rightarrow> 'k \<Rightarrow> ('k \<rightharpoonup> 'v) \<times> 'v" where
  "store_index d s k = (case s k of None \<Rightarrow> (s(k \<mapsto> d), d) | Some x \<Rightarrow> (s, x))"

text \<open>
  Modelled from the spec: \<^verbatim>\<open>lock(key)\<close> and \<^verbatim>\<open>unlock(key)\<close> of the missing \<^verbatim>\<open>store.h\<close>
  "acquire/release mutual exclusion scoped to one key".  The lock table maps a key to the
  worker that holds its lock.  \<open>store_lock\<close> is \<open>None\<close> while another worker holds the
  key: the caller stays blocked.
\<close>

definition store_lock :: "('k \<rightharpoonup> nat) \<Rightarrow> nat \<Rightarrow> 'k \<Rightarrow> ('k \<rightharpoonup> nat) option" where
  "store_lock h t k = (case h k of None \<Rightarrow> Some (h(k \<mapsto> t)) | Some u \<Rightarrow> None)"

definition store_unlock :: "('k \<rightharpoonup> nat) \<Rightarrow> 'k \<Rightarrow> ('k \<rightharpoonup> nat)" where
  "store_unlock h k = h(k := None)"

section \<open>\<^verbatim>\<open>task::run\<close> (lines 160 to 170) as a transition system\<close>

text \<open>
  A started task is a worker: its range, the loop variable \<^verbatim>\<open>i\<close>, and the place in the
  loop body it has reached.
  \<^item> \<open>LoopHead\<close>: before the test \<^verbatim>\<open>i != _end\<close>;
  \<^item> \<open>HasLock\<close>: after \<^verbatim>\<open>_store.lock(m.key())\<close>;
  \<^item> \<open>Loaded x\<close>: \<^verbatim>\<open>_store[m.key()]\<close> has been evaluated and \<^verbatim>\<open>+=\<close> has read the value \<open>x\<close>
    through the reference;
  \<^item> \<open>Stored\<close>: \<^verbatim>\<open>+=\<close> has written the sum back, \<^verbatim>\<open>unlock\<close> is next;
  \<^item> \<open>Crashed\<close>: the iterator was dereferenced outside the dataset.
\<close>

datatype 'v pc = LoopHead | HasLock | Loaded 'v | Stored | Crashed

record 'v worker =
  w_begin :: nat
  w_end :: nat
  w_i :: nat
  w_pc :: "'v pc"

text \<open>
  Modelled from the spec: \<^verbatim>\<open>ulib/thread.h\<close> is not among the sources.  \<^verbatim>\<open>start()\<close> runs
  the body \<^verbatim>\<open>run()\<close> once on a thread of its own (section 4.4); the worker begins at the
  head of the loop with \<^verbatim>\<open>i = _begin\<close>.
\<close>

definition start :: "task \<Rightarrow> 'v worker" where
  "start t = \<lparr>w_begin = t_begin t, w_end = t_end t, w_i = t_begin t, w_pc = LoopHead\<rparr>"

text \<open>The body has returned when the loop test fails.\<close>

definition finished :: "'v worker \<Rightarrow> bool" where
  "finished w = (w_pc w = LoopHead \<and> w_i w = w_end w)"

text \<open>
  What the workers do to the store, in the order in which it happens, each entry tagged
  with the index of the worker.
\<close>

datatype ('k, 'v) event =
    Acquire nat 'k
  | Lookup nat 'k
  | Merge nat 'k 'v
  | Release nat 'k

record ('k, 'v) sys =
  store :: "'k \<rightharpoonup> 'v"
  held :: "'k \<rightharpoonup> nat"
  workers :: "'v worker list"
  events :: "('k, 'v) event list"

text \<open>
  One step of worker \<open>t\<close>; \<open>None\<close> when the worker cannot move (it has returned, it has
  crashed, or it waits for a lock).  The mapper \<^verbatim>\<open>m\<close> is bound to the record \<^verbatim>\<open>*i\<close>, and
  \<^verbatim>\<open>m.key()\<close> is evaluated anew at each of the three calls.  (Past \<open>LoopHead\<close> the
  position \<open>w_i w\<close> is inside the dataset: the step from \<open>LoopHead\<close> has checked it.)
\<close>

definition step ::
    "('r, 'k, 'v) job_types \<Rightarrow> 'r list \<Rightarrow> nat \<Rightarrow> ('k, 'v) sys \<Rightarrow> ('k, 'v) sys option" where
  "step J ds t st =
     (if length (workers st) \<le> t then None
      else
        let w = workers st ! t; m = ds ! w_i w in
        (case w_pc w of
           LoopHead \<Rightarrow>
             if w_i w = w_end w then None
             else if length ds \<le> w_i w
             then Some (st\<lparr>workers := (workers st)[t := w\<lparr>w_pc := Crashed\<rparr>]\<rparr>)
             else
               (case store_lock (held st) t (mapper_key J m) of
                  None \<Rightarrow> None
                | Some h \<Rightarrow>
                    Some (st\<lparr>held := h,
                             workers := (workers st)[t := w\<lparr>w_pc := HasLock\<rparr>],
                             events := events st @ [Acquire t (mapper_key J m)]\<rparr>))
         | HasLock \<Rightarrow>
             (case store_index (init_value J) (store st) (mapper_key J m) of
                (s, x) \<Rightarrow>
                  Some (st\<lparr>store := s,
                           workers := (workers st)[t := w\<lparr>w_pc := Loaded x\<rparr>],
                           events := events st @ [Lookup t (mapper_key J m)]\<rparr>))
         | Loaded x \<Rightarrow>
             Some (st\<lparr>store := (store st)(mapper_key J m \<mapsto> reduce J x (mapper_value J m)),
                      workers := (workers st)[t := w\<lparr>w_pc := Stored\<rparr>],
                      events := events st @ [Merge t (mapper_key J m) (mapper_value J m)]\<rparr>)
         | Stored \<Rightarrow>
             Some (st\<lparr>held := store_unlock (held st) (mapper_key J m),
                      workers := (workers st)[t := w\<lparr>w_i := w_i w + 1, w_pc := LoopHead\<rparr>],
                      events := events st @ [Release t (mapper_key J m)]\<rparr>)
         | Crashed \<Rightarrow> None))"

text \<open>
  A schedule names the worker that moves next; a worker that cannot move is passed over.
  Every interleaving of the workers' steps is the run of some schedule.
\<close>

fun run_sched ::
    "('r, 'k, 'v) job_types \<Rightarrow> 'r list \<Rightarrow> nat list \<Rightarrow> ('k, 'v) sys \<Rightarrow> ('k, 'v) sys" where
  "run_sched J ds [] st = st"
| "run_sched J ds (t # ts) st =
     run_sched J ds ts (case step J ds t st of None \<Rightarrow> st | Some st' \<Rightarrow> st')"

section \<open>\<^verbatim>\<open>job::exec\<close> (lines 199 to 217)\<close>

text \<open>
  The loop of lines 212 and 213: \<^verbatim>\<open>tasks[i]->start()\<close> for \<open>i\<close> in \<open>[0..ntask - 1]\<close>.
\<close>

fun start_loop ::
    "int list \<Rightarrow> task array \<Rightarrow> 'v worker list \<Rightarrow> error + ('v worker list \<times> task array)" where
  "start_loop [] tasks ws = Inr (ws, tasks)"
| "start_loop (i # js) tasks ws =
     (case array_get tasks i of
        Inl e \<Rightarrow> Inl e
      | Inr (t, tasks') \<Rightarrow> start_loop js tasks' (ws @ [start t]))"

definition init_sys :: "('k \<rightharpoonup> 'v) \<Rightarrow> 'v worker list \<Rightarrow> ('k, 'v) sys" where
  "init_sys s0 ws = \<lparr>store = s0, held = Map.empty, workers = ws, events = []\<rparr>"

text \<open>
  The outcome of \<^verbatim>\<open>exec\<close> under a schedule.  The destructor of a task joins its thread,
  so \<^verbatim>\<open>exec\<close> returns only when every worker has returned: a schedule that leaves a
  worker unfinished is a prefix of a run; its outcome is \<open>Running\<close>, with the state
  reached so far.

  A worker started early can move while later ones are not started yet, and one joined
  late can move while \<^verbatim>\<open>exec\<close> waits for an earlier one; both are interleavings of the
  steps of all workers, started together here.  The caller's store \<open>s0\<close> is passed in,
  with no lock held.
\<close>

datatype 'a outcome = Error error | Running 'a | Finished 'a

text \<open>
  \<open>exec_logged\<close> is the whole of \<^verbatim>\<open>exec\<close>; beside the state of the store and the workers
  it gives the task array as it is when line 216 frees it, with the log of every
  subscript \<^verbatim>\<open>exec\<close> has made.  (The subscripts of the deleting loop do not depend on the
  workers, so they are in the log of an unfinished run too.)  \<open>exec\<close> is \<open>exec_logged\<close>
  without the array.
\<close>

definition exec_logged ::
    "('r, 'k, 'v) job_types \<Rightarrow> 'r list \<Rightarrow> ('k \<rightharpoonup> 'v) \<Rightarrow> int \<Rightarrow> nat list \<Rightarrow>
     (('k, 'v) sys \<times> task array) outcome"
  where
  "exec_logged J ds s0 ntask sched =
     (case exec_create (length ds) ntask of
        Inl e \<Rightarrow> Error e
      | Inr tasks \<Rightarrow>
          (case start_loop [0..ntask - 1] tasks [] of
             Inl e \<Rightarrow> Error e
           | Inr (ws, tasks1) \<Rightarrow>
               let st = run_sched J ds sched (init_sys s0 ws) in
               (case delete_loop [0..ntask - 1] tasks1 of
                  Inl e \<Rightarrow> Error e
                | Inr tasks2 \<Rightarrow>
                    if list_ex (\<lambda>w. w_pc w = Crashed) (workers st) then Error BadIterator
                    else if list_all finished (workers st) then Finished (st, tasks2)
                    else Running (st, tasks2))))"

definition exec ::
    "('r, 'k, 'v) job_types \<Rightarrow> 'r list \<Rightarrow> ('k \<rightharpoonup> 'v) \<Rightarrow> int \<Rightarrow> nat list \<Rightarrow> ('k, 'v) sys outcome"
  where
  "exec J ds s0 ntask sched =
     (case exec_logged J ds s0 ntask sched of
        Error e \<Rightarrow> Error e
      | Running (st, tasks) \<Rightarrow> Running st
      | Finished (st, tasks) \<Rightarrow> Finished st)"

section \<open>The sequential fold of the specification\<close>

text \<open>
  Section 8, single worker equivalence: "a sequential fold of Mapper+Combine applied to
  every record in original dataset order".  \<open>map_combine\<close> maps one record and merges its
  value into the entry of its key, created with the default value when the key is new.
\<close>

definition map_combine :: "('r, 'k, 'v) job_types \<Rightarrow> 'r \<Rightarrow> ('k \<rightharpoonup> 'v) \<Rightarrow> ('k \<rightharpoonup> 'v)" where
  "map_combine J r s =
     s(mapper_key J r \<mapsto>
         reduce J (case s (mapper_key J r) of None \<Rightarrow> init_value J | Some x \<Rightarrow> x)
           (mapper_value J r))"

definition sequential_fold ::
    "('r, 'k, 'v) job_types \<Rightarrow> 'r list \<Rightarrow> ('k \<rightharpoonup> 'v) \<Rightarrow> ('k \<rightharpoonup> 'v)" where
  "sequential_fold J ds s0 = fold (map_combine J) ds s0"

section \<open>The ranges in closed form\<close>

text \<open>
  The ranges of section 4.5 of the specification, for a dataset of \<open>n\<close> records and \<open>N\<close>
  workers; \<open>exec_create\<close> is proved to compute them (lemma \<open>exec_create_ok\<close>).
\<close>

definition work_ranges :: "nat \<Rightarrow> nat \<Rightarrow> task list" where
  "work_ranges n N =
     (let len = n div N
      in map (\<lambda>i. new_task (len * i) (len * (i + 1))) [0..<N - 1] @
         [new_task (len * (N - 1)) n])"

section \<open>Invariants of the transition system\<close>

text \<open>A worker is in its critical section between \<^verbatim>\<open>lock\<close> and \<^verbatim>\<open>unlock\<close>.\<close>

definition in_cs :: "'v worker \<Rightarrow> bool" where
  "in_cs w =
     (case w_pc w of
        LoopHead \<Rightarrow> False | HasLock \<Rightarrow> True | Loaded x \<Rightarrow> True | Stored \<Rightarrow> True
      | Crashed \<Rightarrow> False)"

definition is_loaded :: "'v worker \<Rightarrow> bool" where
  "is_loaded w =
     (case w_pc w of
        LoopHead \<Rightarrow> False | HasLock \<Rightarrow> False | Loaded x \<Rightarrow> True | Stored \<Rightarrow> False
      | Crashed \<Rightarrow> False)"

text \<open>The key of the record a worker is at: what \<^verbatim>\<open>m.key()\<close> returns.\<close>

definition cur_key :: "('r, 'k, 'v) job_types \<Rightarrow> 'r list \<Rightarrow> 'v worker \<Rightarrow> 'k" where
  "cur_key J ds w = mapper_key J (ds ! w_i w)"

text \<open>The records at the positions \<open>b, \<dots>, e - 1\<close> of the dataset, in dataset order.\<close>

definition slice :: "'a list \<Rightarrow> nat \<Rightarrow> nat \<Rightarrow> 'a list" where
  "slice xs b e = map ((!) xs) [b..<e]"

fun owner :: "('k, 'v) event \<Rightarrow> nat" where
  "owner (Acquire t k) = t"
| "owner (Lookup t k) = t"
| "owner (Merge t k v) = t"
| "owner (Release t k) = t"

text \<open>The four events of one pass through the loop body, for the record \<open>r\<close>.\<close>

definition record_events :: "('r, 'k, 'v) job_types \<Rightarrow> nat \<Rightarrow> 'r \<Rightarrow> ('k, 'v) event list" where
  "record_events J t r =
     [Acquire t (mapper_key J r), Lookup t (mapper_key J r),
      Merge t (mapper_key J r) (mapper_value J r), Release t (mapper_key J r)]"

text \<open>
  The events a worker has caused when it is at position \<open>w_i w\<close> and place \<open>w_pc w\<close>:
  all four for each record before \<open>w_i w\<close>, and those of the body begun.
\<close>

definition pc_rank :: "'v pc \<Rightarrow> nat" where
  "pc_rank p = (case p of LoopHead \<Rightarrow> 0 | HasLock \<Rightarrow> 1 | Loaded x \<Rightarrow> 2 | Stored \<Rightarrow> 3 | Crashed \<Rightarrow> 0)"

definition done_events ::
    "('r, 'k, 'v) job_types \<Rightarrow> 'r list \<Rightarrow> nat \<Rightarrow> 'v worker \<Rightarrow> ('k, 'v) event list" where
  "done_events J ds t w =
     concat (map (record_events J t) (slice ds (w_begin w) (w_i w))) @
     take (pc_rank (w_pc w)) (record_events J t (ds ! w_i w))"

text \<open>The key and value of every merge, in the order of the merges.\<close>

fun merged :: "('k, 'v) event list \<Rightarrow> ('k \<times> 'v) list" where
  "merged [] = []"
| "merged (Merge t k v # es) = (k, v) # merged es"
| "merged (Acquire t k # es) = merged es"
| "merged (Lookup t k # es) = merged es"
| "merged (Release t k # es) = merged es"

text \<open>Merging the value \<open>v\<close> into the entry of \<open>k\<close>, in one piece.\<close>

definition merge_into :: "('r, 'k, 'v) job_types \<Rightarrow> 'k \<times> 'v \<Rightarrow> ('k \<rightharpoonup> 'v) \<Rightarrow> ('k \<rightharpoonup> 'v)" where
  "merge_into J kv s =
     s(fst kv \<mapsto> reduce J (case s (fst kv) of None \<Rightarrow> init_value J | Some x \<Rightarrow> x) (snd kv))"

definition wf_worker :: "'r list \<Rightarrow> 'v worker \<Rightarrow> bool" where
  "wf_worker ds w =
     (w_begin w \<le> w_i w \<and> w_i w \<le> w_end w \<and> w_end w \<le> length ds \<and> w_pc w \<noteq> Crashed \<and>
      (in_cs w \<longrightarrow> w_i w < w_end w))"

definition wf_sys :: "'r list \<Rightarrow> ('k, 'v) sys \<Rightarrow> bool" where
  "wf_sys ds st = list_all (wf_worker ds) (workers st)"

text \<open>A key is locked by \<open>t\<close> exactly when worker \<open>t\<close> is in its critical section for it.\<close>

definition lock_inv :: "('r, 'k, 'v) job_types \<Rightarrow> 'r list \<Rightarrow> ('k, 'v) sys \<Rightarrow> bool" where
  "lock_inv J ds st =
     ((\<forall>k t. held st k = Some t \<longrightarrow>
         t < length (workers st) \<and> in_cs (workers st ! t) \<and> cur_key J ds (workers st ! t) = k) \<and>
      (\<forall>t < length (workers st).
         in_cs (workers st ! t) \<longrightarrow> held st (cur_key J ds (workers st ! t)) = Some t))"

text \<open>
  The store is the caller's store with every merge so far applied in one piece, in the
  order of the merges; only where a worker has read an entry and not yet written it back
  the entry exists already (with the value read).
\<close>

definition pending :: "('r, 'k, 'v) job_types \<Rightarrow> 'r list \<Rightarrow> ('k, 'v) sys \<Rightarrow> 'k \<Rightarrow> bool" where
  "pending J ds st k = list_ex (\<lambda>w. is_loaded w \<and> cur_key J ds w = k) (workers st)"

definition merged_store ::
    "('r, 'k, 'v) job_types \<Rightarrow> ('k \<rightharpoonup> 'v) \<Rightarrow> ('k, 'v) sys \<Rightarrow> ('k \<rightharpoonup> 'v)" where
  "merged_store J s0 st = fold (merge_into J) (merged (events st)) s0"

definition store_inv ::
    "('r, 'k, 'v) job_types \<Rightarrow> 'r list \<Rightarrow> ('k \<rightharpoonup> 'v) \<Rightarrow> ('k, 'v) sys \<Rightarrow> bool" where
  "store_inv J ds s0 st =
     ((\<forall>t < length (workers st). \<forall>x.
         w_pc (workers st ! t) = Loaded x \<longrightarrow>
         store st (cur_key J ds (workers st ! t)) = Some x) \<and>
      (\<forall>k. store st k =
         (if pending J ds st k
          then Some (case merged_store J s0 st k of None \<Rightarrow> init_value J | Some x \<Rightarrow> x)
          else merged_store J s0 st k)))"

definition events_inv :: "('r, 'k, 'v) job_types \<Rightarrow> 'r list \<Rightarrow> ('k, 'v) sys \<Rightarrow> bool" where
  "events_inv J ds st =
     ((\<forall>e \<in> set (events st). owner e < length (workers st)) \<and>
      (\<forall>t < length (workers st).
         filter (\<lambda>e. owner e = t) (events st) = done_events J ds t (workers st ! t)))"

text \<open>The number of steps the workers have still to take.\<close>

definition remaining :: "('k, 'v) sys \<Rightarrow> nat" where
  "remaining st = sum_list (map (\<lambda>w. 4 * (w_end w - w_i w) - pc_rank (w_pc w)) (workers st))"

definition sys_inv ::
    "('r, 'k, 'v) job_types \<Rightarrow> 'r list \<Rightarrow> ('k \<rightharpoonup> 'v) \<Rightarrow> ('k, 'v) sys \<Rightarrow> bool" where
  "sys_inv J ds s0 st =
     (wf_sys ds st \<and> lock_inv J ds st \<and> store_inv J ds s0 st \<and> events_inv J ds st)"

text \<open>The state in which \<^verbatim>\<open>exec\<close> starts its workers.\<close>

definition exec_init :: "nat \<Rightarrow> ('k \<rightharpoonup> 'v) \<Rightarrow> int \<Rightarrow> ('k, 'v) sys" where
  "exec_init n s0 ntask = init_sys s0 (map start (work_ranges n (nat ntask)))"

section \<open>Two example jobs\<close>

text \<open>
  Records are natural numbers and the key of a record is its parity.  The first job sums
  the records of each parity; the second counts them.
\<close>

definition sum_by_parity :: "(nat, nat, nat) job_types" where
  "sum_by_parity =
     \<lparr>mapper_key = (\<lambda>r. r mod 2), mapper_value = (\<lambda>r. r), reduce = (+), init_value = 0\<rparr>"

definition count_by_parity :: "(nat, nat, nat) job_types" where
  "count_by_parity =
     \<lparr>mapper_key = (\<lambda>r. r mod 2), mapper_value = (\<lambda>r. 1), reduce = (+), init_value = 0\<rparr>"

section \<open>Properties of the task creation\<close>

lemma size_t_of_int_nonneg: "0 \<le> i \<Longrightarrow> i < 2 ^ 64 \<Longrightarrow> size_t_of_int i = nat i"
  by (simp add: size_t_of_int_def)

lemma size_t_mul_small: "a * b < 2 ^ 64 \<Longrightarrow> size_t_mul a b = a * b"
  by (simp add: size_t_mul_def)

lemma create_loop_upto:
  "0 \<le> lo \<Longrightarrow> hi < int (length (cells a)) \<Longrightarrow> hi + 1 < 2 ^ 64 \<Longrightarrow>
   len * nat (hi + 1) < 2 ^ 64 \<Longrightarrow>
   \<exists>a'. create_loop len [lo..hi] a = Inr a' \<and>
        length (cells a') = length (cells a) \<and>
        touched a' = touched a @ [lo..hi] \<and>
        (\<forall>j < length (cells a). cells a' ! j =
           (if lo \<le> int j \<and> int j \<le> hi
            then Some (new_task (len * j) (len * (j + 1)))
            else cells a ! j))"
proof (induction "nat (hi + 1 - lo)" arbitrary: lo a)
  case 0
  then have "[lo..hi] = []" by simp
  with 0 show ?case by auto
next
  case (Suc m)
  then have le: "lo \<le> hi" by linarith
  then have up: "[lo..hi] = lo # [lo + 1..hi]" by (simp add: upto_rec1)
  have b1: "len * nat lo \<le> len * nat (hi + 1)" using le Suc.prems by (intro mult_le_mono2) linarith
  have b2: "len * nat (lo + 1) \<le> len * nat (hi + 1)" using le Suc.prems by (intro mult_le_mono2) linarith
  have lo64: "lo < 2 ^ 64" "lo + 1 < 2 ^ 64" using le Suc.prems by linarith+
  have c1: "len * nat lo < 2 ^ 64" using b1 Suc.prems(4) by (rule le_less_trans)
  have c2: "len * nat (lo + 1) < 2 ^ 64" using b2 Suc.prems(4) by (rule le_less_trans)
  have m1: "size_t_mul len (size_t_of_int lo) = len * nat lo"
    using size_t_mul_small[OF c1] size_t_of_int_nonneg[OF Suc.prems(1) lo64(1)] by simp
  have m2: "size_t_mul len (size_t_of_int (lo + 1)) = len * nat (lo + 1)"
    using size_t_mul_small[OF c2] size_t_of_int_nonneg[OF _ lo64(2)] Suc.prems(1) by simp
  define a1 where "a1 = a\<lparr>cells := (cells a)[nat lo := Some (new_task (len * nat lo) (len * nat (lo + 1)))],
                         touched := touched a @ [lo]\<rparr>"
  have s: "array_set a lo (new_task (len * nat lo) (len * nat (lo + 1))) = Inr a1"
    using Suc.prems le by (simp add: array_set_def in_bounds_def a1_def)
  have "m = nat (hi + 1 - (lo + 1))" using Suc.hyps(2) by linarith
  from Suc.hyps(1)[OF this, of a1] Suc.prems
  obtain a' where a': "create_loop len [lo + 1..hi] a1 = Inr a'"
      "length (cells a') = length (cells a1)"
      "touched a' = touched a1 @ [lo + 1..hi]"
      "\<forall>j < length (cells a1). cells a' ! j =
           (if lo + 1 \<le> int j \<and> int j \<le> hi
            then Some (new_task (len * j) (len * (j + 1)))
            else cells a1 ! j)"
    by (auto simp: a1_def)
  have "create_loop len [lo..hi] a = Inr a'"
    by (simp add: up m1 m2 s a')
  moreover have "length (cells a') = length (cells a)" by (simp add: a' a1_def)
  moreover have "touched a' = touched a @ [lo..hi]" by (simp add: a' a1_def up)
  moreover have "\<forall>j < length (cells a). cells a' ! j =
           (if lo \<le> int j \<and> int j \<le> hi
            then Some (new_task (len * j) (len * (j + 1)))
            else cells a ! j)"
  proof (intro allI impI)
    fix j assume j: "j < length (cells a)"
    then have "cells a' ! j = (if lo + 1 \<le> int j \<and> int j \<le> hi
            then Some (new_task (len * j) (len * (j + 1)))
            else cells a1 ! j)" using a'(4) by (simp add: a1_def)
    moreover have "cells a1 ! j = (if j = nat lo then Some (new_task (len * nat lo) (len * nat (lo + 1))) else cells a ! j)"
      using j by (simp add: a1_def nth_list_update)
    moreover have "nat (lo + 1) = nat lo + 1" using Suc.prems by linarith
    ultimately show "cells a' ! j =
           (if lo \<le> int j \<and> int j \<le> hi
            then Some (new_task (len * j) (len * (j + 1)))
            else cells a ! j)" using Suc.prems le by auto
  qed
  ultimately show ?case by blast
qed

lemma length_work_ranges: "0 < N \<Longrightarrow> length (work_ranges n N) = N"
  by (simp add: work_ranges_def Let_def)

lemma nth_work_ranges:
  "j < N \<Longrightarrow> work_ranges n N ! j =
     (if j < N - 1 then new_task (n div N * j) (n div N * (j + 1))
      else new_task (n div N * (N - 1)) n)"
  by (auto simp: work_ranges_def Let_def nth_append)

lemma chunk_bound: "0 < N \<Longrightarrow> j \<le> N \<Longrightarrow> n div N * j \<le> (n::nat)"
proof -
  assume "0 < N" "j \<le> N"
  then have "n div N * j \<le> n div N * N" by (intro mult_le_mono2)
  also have "\<dots> \<le> n" by (simp add: div_times_less_eq_dividend)
  finally show ?thesis .
qed

lemma exec_create_ok:
  assumes "1 \<le> ntask" "ntask < 2 ^ 31" "n < 2 ^ 64"
  shows "exec_create n ntask =
           Inr \<lparr>cells = map Some (work_ranges n (nat ntask)),
                touched = [0..ntask - 2] @ [ntask - 1]\<rparr>"
proof -
  define N where "N = nat ntask"
  define len where "len = n div N"
  define a0 :: "task array" where "a0 = \<lparr>cells = replicate N None, touched = []\<rparr>"
  have N: "0 < N" "int N = ntask" using assms by (simp_all add: N_def)
  have na: "new_array ntask = Inr a0" using assms by (simp add: new_array_def a0_def N_def)
  have big: "ntask < 2 ^ 64" using assms(2) by simp
  have cv: "size_t_of_int ntask = N" using assms big by (simp add: size_t_of_int_nonneg N_def)
  have hi1: "nat (ntask - 2 + 1) = N - 1" using assms by (simp add: N_def)
  have "len * (N - 1) \<le> n" unfolding len_def using N by (intro chunk_bound) simp_all
  then have lb: "len * (N - 1) < 2 ^ 64" using assms(3) by (rule le_less_trans)
  have "\<exists>a'. create_loop len [0..ntask - 2] a0 = Inr a' \<and>
        length (cells a') = length (cells a0) \<and>
        touched a' = touched a0 @ [0..ntask - 2] \<and>
        (\<forall>j < length (cells a0). cells a' ! j =
           (if 0 \<le> int j \<and> int j \<le> ntask - 2
            then Some (new_task (len * j) (len * (j + 1)))
            else cells a0 ! j))"
  proof (rule create_loop_upto)
    show "(0::int) \<le> 0" by simp
    show "ntask - 2 < int (length (cells a0))" using N by (simp add: a0_def)
    show "ntask - 2 + 1 < 2 ^ 64" using big by simp
    show "len * nat (ntask - 2 + 1) < 2 ^ 64" using lb hi1 by simp
  qed
  then obtain a1 where a1: "create_loop len [0..ntask - 2] a0 = Inr a1"
      "length (cells a1) = N" "touched a1 = [0..ntask - 2]"
      "\<forall>j < N. cells a1 ! j =
           (if int j \<le> ntask - 2 then Some (new_task (len * j) (len * (j + 1))) else None)"
    by (auto simp: a0_def)
  have cv1: "size_t_of_int (ntask - 1) = N - 1"
    using assms big by (simp add: size_t_of_int_nonneg N_def)
  define lt where "lt = new_task (len * (N - 1)) n"
  have lastb: "new_task (size_t_mul len (size_t_of_int (ntask - 1))) n = lt"
    using size_t_mul_small[OF lb] cv1 by (simp add: lt_def)
  define a2 where "a2 = a1\<lparr>cells := (cells a1)[nat (ntask - 1) := Some lt],
                          touched := touched a1 @ [ntask - 1]\<rparr>"
  have st: "array_set a1 (ntask - 1) lt = Inr a2"
    using assms a1(2) N by (simp add: array_set_def in_bounds_def a2_def)
  have ex: "exec_create n ntask = Inr a2"
    using N by (simp add: exec_create_def exec_fill_def na cv len_def[symmetric] a1(1) lastb st)
  have "cells a2 = map Some (work_ranges n N)"
  proof (rule nth_equalityI)
    show "length (cells a2) = length (map Some (work_ranges n N))"
      using N by (simp add: a2_def a1 length_work_ranges)
  next
    fix j assume "j < length (cells a2)"
    then have j: "j < N" by (simp add: a2_def a1)
    have nl: "nat (ntask - 1) = N - 1" using assms by (simp add: N_def)
    show "cells a2 ! j = map Some (work_ranges n N) ! j"
    proof (cases "j < N - 1")
      case True
      then have "int j \<le> ntask - 2" using N by linarith
      with True j show ?thesis
        using a1(4) N by (simp add: a2_def lt_def nl a1(2) nth_work_ranges length_work_ranges len_def)
    next
      case False
      with j have "j = N - 1" by simp
      with j show ?thesis
        using N by (simp add: a2_def lt_def nl a1(2) nth_work_ranges length_work_ranges len_def)
    qed
  qed
  moreover have "touched a2 = [0..ntask - 2] @ [ntask - 1]" by (simp add: a2_def a1)
  ultimately have "a2 = \<lparr>cells = map Some (work_ranges n N),
                touched = [0..ntask - 2] @ [ntask - 1]\<rparr>" by (cases a2) simp
  with ex show ?thesis by (simp add: N_def)
qed

lemma concat_chunks:
  "concat (map (\<lambda>i. [len * i..<len * (i + 1)]) [0..<m]) = [0..<len * m]"
proof (induction m)
  case 0
  show ?case by simp
next
  case (Suc m)
  have "[0..<len * Suc m] = [0..<len * m] @ [len * m..<len * m + len]"
    by (metis upt_add_eq_append le0 mult_Suc_right add.commute)
  with Suc show ?case by (simp add: add.commute)
qed

lemma concat_work_ranges:
  assumes "0 < N"
  shows "concat (map (\<lambda>t. [t_begin t..<t_end t]) (work_ranges n N)) = [0..<n]"
proof -
  have le: "n div N * (N - 1) \<le> n" using assms by (intro chunk_bound) simp_all
  have "concat (map (\<lambda>t. [t_begin t..<t_end t]) (work_ranges n N)) =
        concat (map (\<lambda>i. [n div N * i..<n div N * (i + 1)]) [0..<N - 1]) @ [n div N * (N - 1)..<n]"
    by (simp add: work_ranges_def Let_def new_task_def comp_def)
  also have "\<dots> = [0..<n div N * (N - 1)] @ [n div N * (N - 1)..<n]"
    by (simp only: concat_chunks)
  also have "\<dots> = [0..<n]" using le by (metis upt_add_eq_append le0 le_add_diff_inverse add_0)
  finally show ?thesis .
qed

lemma work_ranges_disjoint:
  assumes "i < N" "j < N" "i \<noteq> j"
  shows "work_range (work_ranges n N ! i) \<inter> work_range (work_ranges n N ! j) = {}"
proof -
  have aux: "work_range (work_ranges n N ! a) \<inter> work_range (work_ranges n N ! b) = {}"
    if "a < b" "b < N" for a b
  proof -
    have "n div N * (a + 1) \<le> n div N * b" using that by (intro mult_le_mono2) simp
    moreover have "n div N * b \<le> t_begin (work_ranges n N ! b)"
      using that by (auto simp: nth_work_ranges new_task_def)
    moreover have "a < N - 1" "a < N" using that by simp_all
    then have "t_end (work_ranges n N ! a) = n div N * (a + 1)"
      by (simp add: nth_work_ranges new_task_def)
    ultimately show ?thesis by (auto simp: work_range_def)
  qed
  show ?thesis
  proof (cases "i < j")
    case True
    then show ?thesis using aux assms by blast
  next
    case False
    with assms have "j < i" by simp
    then have "work_range (work_ranges n N ! j) \<inter> work_range (work_ranges n N ! i) = {}"
      using aux assms by blast
    then show ?thesis by blast
  qed
qed

lemma set_concat_ranges:
  "set (concat (map (\<lambda>t. [t_begin t..<t_end t]) ts)) = (\<Union>i<length ts. work_range (ts ! i))"
  by (auto simp: work_range_def in_set_conv_nth) force

lemma work_ranges_union:
  assumes "0 < N"
  shows "(\<Union>i<N. work_range (work_ranges n N ! i)) = {0..<n}"
proof -
  have "(\<Union>i<N. work_range (work_ranges n N ! i)) =
        set (concat (map (\<lambda>t. [t_begin t..<t_end t]) (work_ranges n N)))"
    using set_concat_ranges[of "work_ranges n N"] length_work_ranges[OF assms, of n] by simp
  also have "\<dots> = {0..<n}" using assms by (simp add: concat_work_ranges)
  finally show ?thesis .
qed

lemma work_ranges_card:
  "i < N - 1 \<Longrightarrow> card (work_range (work_ranges n N ! i)) = n div N"
  by (simp add: nth_work_ranges work_range_def new_task_def)

text \<open>
  Claim C1.  For a dataset of \<open>n\<close> records and \<open>ntask \<ge> 1\<close> workers, \<^verbatim>\<open>exec\<close> creates
  \<open>ntask\<close> tasks: task \<open>i\<close> for \<open>i \<le> ntask - 2\<close> has the range
  \<open>[n div ntask * i, n div ntask * (i + 1))\<close> and the last task has
  \<open>[n div ntask * (ntask - 1), n)\<close>.  The ranges are pairwise disjoint, their union is
  \<open>[0, n)\<close>, and every range but the last has \<open>n div ntask\<close> elements.  (\<open>ntask\<close> is an
  \<^verbatim>\<open>int\<close> and \<open>n\<close> a \<^verbatim>\<open>size_t\<close>, hence the two upper bounds.)
\<close>

theorem exec_work_ranges_partition:
  assumes "1 \<le> ntask" "ntask < 2 ^ 31" "n < 2 ^ 64"
  shows "\<exists>tasks ts. exec_create n ntask = Inr tasks \<and> cells tasks = map Some ts \<and>
           length ts = nat ntask \<and>
           (\<forall>i < nat ntask - 1.
              ts ! i = new_task (n div nat ntask * i) (n div nat ntask * (i + 1))) \<and>
           ts ! (nat ntask - 1) = new_task (n div nat ntask * (nat ntask - 1)) n \<and>
           (\<forall>i < nat ntask. \<forall>j < nat ntask. i \<noteq> j \<longrightarrow>
              work_range (ts ! i) \<inter> work_range (ts ! j) = {}) \<and>
           (\<Union>i < nat ntask. work_range (ts ! i)) = {0..<n} \<and>
           (\<forall>i < nat ntask - 1. card (work_range (ts ! i)) = n div nat ntask)"
proof -
  have N: "0 < nat ntask" using assms by simp
  let ?ts = "work_ranges n (nat ntask)"
  let ?a = "\<lparr>cells = map Some ?ts, touched = [0..ntask - 2] @ [ntask - 1]\<rparr>"
  have "exec_create n ntask = Inr ?a" using assms by (rule exec_create_ok)
  moreover have "cells ?a = map Some ?ts" by simp
  moreover have "length ?ts = nat ntask" using N by (rule length_work_ranges)
  moreover have "\<forall>i < nat ntask - 1.
              ?ts ! i = new_task (n div nat ntask * i) (n div nat ntask * (i + 1))"
    by (simp add: nth_work_ranges)
  moreover have "?ts ! (nat ntask - 1) = new_task (n div nat ntask * (nat ntask - 1)) n"
    using N by (simp add: nth_work_ranges)
  moreover have "\<forall>i < nat ntask. \<forall>j < nat ntask. i \<noteq> j \<longrightarrow>
              work_range (?ts ! i) \<inter> work_range (?ts ! j) = {}"
    by (intro allI impI work_ranges_disjoint)
  moreover have "(\<Union>i < nat ntask. work_range (?ts ! i)) = {0..<n}"
    using N by (rule work_ranges_union)
  moreover have "\<forall>i < nat ntask - 1. card (work_range (?ts ! i)) = n div nat ntask"
    by (simp add: work_ranges_card)
  ultimately show ?thesis by blast
qed

text \<open>The theorem at 10 records and 3 workers: the ranges are [0,3), [3,6) and [6,10).\<close>

theorem exec_work_ranges_partition_witness:
  "exec_create 10 3 =
     Inr \<lparr>cells = [Some (new_task 0 3), Some (new_task 3 6), Some (new_task 6 10)],
          touched = [0, 1, 2]\<rparr> \<and>
   (\<exists>tasks ts. exec_create 10 3 = Inr tasks \<and> cells tasks = map Some ts \<and>
           length ts = nat 3 \<and>
           (\<forall>i < nat 3 - 1. ts ! i = new_task (10 div nat 3 * i) (10 div nat 3 * (i + 1))) \<and>
           ts ! (nat 3 - 1) = new_task (10 div nat 3 * (nat 3 - 1)) 10 \<and>
           (\<forall>i < nat 3. \<forall>j < nat 3. i \<noteq> j \<longrightarrow>
              work_range (ts ! i) \<inter> work_range (ts ! j) = {}) \<and>
           (\<Union>i < nat 3. work_range (ts ! i)) = {0..<10} \<and>
           (\<forall>i < nat 3 - 1. card (work_range (ts ! i)) = 10 div nat 3))"
proof (rule conjI)
  show "exec_create 10 3 =
     Inr \<lparr>cells = [Some (new_task 0 3), Some (new_task 3 6), Some (new_task 6 10)],
          touched = [0, 1, 2]\<rparr>"
  proof -
    have r: "replicate (3::nat) (None :: task option) = [None, None, None]"
      by (simp add: numeral_3_eq_3)
    show ?thesis
      by (simp add: exec_create_def exec_fill_def new_array_def size_t_of_int_def size_t_mul_def
          array_set_def in_bounds_def upto_rec1 r)
  qed
  show "\<exists>tasks ts. exec_create 10 3 = Inr tasks \<and> cells tasks = map Some ts \<and>
           length ts = nat 3 \<and>
           (\<forall>i < nat 3 - 1. ts ! i = new_task (10 div nat 3 * i) (10 div nat 3 * (i + 1))) \<and>
           ts ! (nat 3 - 1) = new_task (10 div nat 3 * (nat 3 - 1)) 10 \<and>
           (\<forall>i < nat 3. \<forall>j < nat 3. i \<noteq> j \<longrightarrow>
              work_range (ts ! i) \<inter> work_range (ts ! j) = {}) \<and>
           (\<Union>i < nat 3. work_range (ts ! i)) = {0..<10} \<and>
           (\<forall>i < nat 3 - 1. card (work_range (ts ! i)) = 10 div nat 3)"
    by (rule exec_work_ranges_partition) simp_all
qed

text \<open>
  Claim C3.  With more workers than records the chunk length \<open>n div ntask\<close> is 0: every
  range but the last is empty, the last range is \<open>[n div ntask * (ntask - 1), n) = [0, n)\<close>,
  and the index lists of the ranges, one after the other, are \<open>[0..<n]\<close>: every record
  belongs to exactly one range, once.
\<close>

theorem exec_degenerate_split:
  assumes "int n < ntask" "ntask < 2 ^ 31"
  shows "\<exists>tasks ts. exec_create n ntask = Inr tasks \<and> cells tasks = map Some ts \<and>
           length ts = nat ntask \<and> n div nat ntask = 0 \<and>
           (\<forall>i < nat ntask - 1. work_range (ts ! i) = {}) \<and>
           ts ! (nat ntask - 1) = new_task (n div nat ntask * (nat ntask - 1)) n \<and>
           work_range (ts ! (nat ntask - 1)) = {0..<n} \<and>
           concat (map (\<lambda>t. [t_begin t..<t_end t]) ts) = [0..<n]"
proof -
  have N: "0 < nat ntask" and one: "1 \<le> ntask" using assms by simp_all
  have "int n < 2 ^ 31" using assms by linarith
  then have "n < 2 ^ 31" by (metis of_nat_less_iff of_nat_numeral of_nat_power)
  also have "\<dots> < (2::nat) ^ 64" by simp
  finally have n64: "n < 2 ^ 64" .
  have z: "n div nat ntask = 0" using assms by simp
  let ?ts = "work_ranges n (nat ntask)"
  let ?a = "\<lparr>cells = map Some ?ts, touched = [0..ntask - 2] @ [ntask - 1]\<rparr>"
  have "exec_create n ntask = Inr ?a" using one assms(2) n64 by (rule exec_create_ok)
  moreover have "cells ?a = map Some ?ts" by simp
  moreover have "length ?ts = nat ntask" using N by (rule length_work_ranges)
  moreover have "\<forall>i < nat ntask - 1. work_range (?ts ! i) = {}"
    by (simp add: nth_work_ranges work_range_def new_task_def z)
  moreover have l: "?ts ! (nat ntask - 1) = new_task (n div nat ntask * (nat ntask - 1)) n"
    using N by (simp add: nth_work_ranges)
  moreover have "work_range (?ts ! (nat ntask - 1)) = {0..<n}"
    by (simp only: l) (simp add: z work_range_def new_task_def)
  moreover have "concat (map (\<lambda>t. [t_begin t..<t_end t]) ?ts) = [0..<n]"
    using N by (rule concat_work_ranges)
  ultimately show ?thesis using z by blast
qed

text \<open>The theorem at 2 records and 4 workers: three empty ranges, then [0,2).\<close>

theorem exec_degenerate_split_witness:
  "exec_create 2 4 =
     Inr \<lparr>cells = [Some (new_task 0 0), Some (new_task 0 0), Some (new_task 0 0),
                   Some (new_task 0 2)],
          touched = [0, 1, 2, 3]\<rparr> \<and>
   (\<exists>tasks ts. exec_create 2 4 = Inr tasks \<and> cells tasks = map Some ts \<and>
           length ts = nat 4 \<and> 2 div nat 4 = 0 \<and>
           (\<forall>i < nat 4 - 1. work_range (ts ! i) = {}) \<and>
           ts ! (nat 4 - 1) = new_task (2 div nat 4 * (nat 4 - 1)) 2 \<and>
           work_range (ts ! (nat 4 - 1)) = {0..<2} \<and>
           concat (map (\<lambda>t. [t_begin t..<t_end t]) ts) = [0..<2])"
proof (rule conjI)
  show "exec_create 2 4 =
     Inr \<lparr>cells = [Some (new_task 0 0), Some (new_task 0 0), Some (new_task 0 0),
                   Some (new_task 0 2)],
          touched = [0, 1, 2, 3]\<rparr>"
  proof -
    have r: "replicate (4::nat) (None :: task option) = [None, None, None, None]"
      by (simp add: numeral_Bit0 numeral_One)
    show ?thesis
      by (simp add: exec_create_def exec_fill_def new_array_def size_t_of_int_def size_t_mul_def
          array_set_def in_bounds_def upto_rec1 r)
  qed
  show "\<exists>tasks ts. exec_create 2 4 = Inr tasks \<and> cells tasks = map Some ts \<and>
           length ts = nat 4 \<and> 2 div nat 4 = 0 \<and>
           (\<forall>i < nat 4 - 1. work_range (ts ! i) = {}) \<and>
           ts ! (nat 4 - 1) = new_task (2 div nat 4 * (nat 4 - 1)) 2 \<and>
           work_range (ts ! (nat 4 - 1)) = {0..<2} \<and>
           concat (map (\<lambda>t. [t_begin t..<t_end t]) ts) = [0..<2]"
    by (rule exec_degenerate_split) simp_all
qed

section \<open>The starting and the deleting loop\<close>

lemma array_get_cells:
  "cells a = map Some ts \<Longrightarrow> 0 \<le> i \<Longrightarrow> i < int (length ts) \<Longrightarrow>
   array_get a i = Inr (ts ! nat i, a\<lparr>touched := touched a @ [i]\<rparr>)"
  by (simp add: array_get_def in_bounds_def)

lemma start_loop_ok:
  "cells a = map Some ts \<Longrightarrow> \<forall>i \<in> set js. 0 \<le> i \<and> i < int (length ts) \<Longrightarrow>
   start_loop js a ws =
     Inr (ws @ map (\<lambda>i. start (ts ! nat i)) js, a\<lparr>touched := touched a @ js\<rparr>)"
proof (induction js arbitrary: a ws)
  case Nil
  show ?case by simp
next
  case (Cons i js)
  have g: "array_get a i = Inr (ts ! nat i, a\<lparr>touched := touched a @ [i]\<rparr>)"
    using Cons.prems by (intro array_get_cells) simp_all
  have "start_loop js (a\<lparr>touched := touched a @ [i]\<rparr>) (ws @ [start (ts ! nat i)]) =
        Inr ((ws @ [start (ts ! nat i)]) @ map (\<lambda>i. start (ts ! nat i)) js,
             (a\<lparr>touched := touched a @ [i]\<rparr>)\<lparr>touched := touched (a\<lparr>touched := touched a @ [i]\<rparr>) @ js\<rparr>)"
    using Cons.prems by (intro Cons.IH) simp_all
  then show ?case by (simp add: g)
qed

lemma delete_loop_ok:
  "cells a = map Some ts \<Longrightarrow> \<forall>i \<in> set js. 0 \<le> i \<and> i < int (length ts) \<Longrightarrow>
   delete_loop js a = Inr (a\<lparr>touched := touched a @ js\<rparr>)"
proof (induction js arbitrary: a)
  case Nil
  show ?case by simp
next
  case (Cons i js)
  have g: "array_get a i = Inr (ts ! nat i, a\<lparr>touched := touched a @ [i]\<rparr>)"
    using Cons.prems by (intro array_get_cells) simp_all
  have "delete_loop js (a\<lparr>touched := touched a @ [i]\<rparr>) =
        Inr ((a\<lparr>touched := touched a @ [i]\<rparr>)\<lparr>touched := touched (a\<lparr>touched := touched a @ [i]\<rparr>) @ js\<rparr>)"
    using Cons.prems by (intro Cons.IH) simp_all
  then show ?case by (simp add: g)
qed

lemma map_nat_upto: "map nat [0..int N - 1] = [0..<N]"
proof (induction N)
  case 0
  show ?case by simp
next
  case (Suc N)
  have "[0..int (Suc N) - 1] = [0..int N - 1] @ [int N]"
    using upto_rec2[of 0 "int N"] by simp
  with Suc show ?case by simp
qed

lemma map_start_upto:
  "map (\<lambda>i. start (ts ! nat i)) [0..int (length ts) - 1] = map start ts"
proof -
  have "map (\<lambda>i. start (ts ! nat i)) [0..int (length ts) - 1] =
        map (\<lambda>j. start (ts ! j)) (map nat [0..int (length ts) - 1])"
    by (simp add: comp_def)
  also have "\<dots> = map (\<lambda>j. start (ts ! j)) [0..<length ts]" by (simp only: map_nat_upto)
  also have "\<dots> = map start (map (\<lambda>j. ts ! j) [0..<length ts])" by (simp add: comp_def)
  also have "\<dots> = map start ts" by (simp only: map_nth)
  finally show ?thesis .
qed

lemma exec_start_ok:
  assumes "1 \<le> ntask" "cells a = map Some ts" "length ts = nat ntask"
  shows "start_loop [0..ntask - 1] a [] =
           Inr (map start ts :: 'v worker list, a\<lparr>touched := touched a @ [0..ntask - 1]\<rparr>)"
proof -
  have i: "int (length ts) = ntask" using assms by simp
  have "start_loop [0..ntask - 1] a [] =
     Inr ([] @ map (\<lambda>i. start (ts ! nat i) :: 'v worker) [0..ntask - 1],
          a\<lparr>touched := touched a @ [0..ntask - 1]\<rparr>)"
    using assms by (intro start_loop_ok) auto
  moreover have "map (\<lambda>i. start (ts ! nat i) :: 'v worker) [0..ntask - 1] = map start ts"
    using map_start_upto[of ts] i by simp
  ultimately show ?thesis by (simp only: append_Nil)
qed

lemma exec_delete_ok:
  assumes "1 \<le> ntask" "cells a = map Some ts" "length ts = nat ntask"
  shows "delete_loop [0..ntask - 1] a = Inr (a\<lparr>touched := touched a @ [0..ntask - 1]\<rparr>)"
  using assms by (intro delete_loop_ok) auto

section \<open>The partitioner\<close>

text \<open>
  Claim C7.  Two partitioners are equal under \<^verbatim>\<open>operator==\<close> if and only if their keys
  are equal, and the conversion to \<^verbatim>\<open>size_t\<close> is a function of the key alone: it is
  \<open>mix (conv (key p))\<close>, so equal partitioners convert to the same value.
\<close>

theorem partitioner_eq_key:
  "(partitioner_eq p q \<longleftrightarrow> key p = key q) \<and>
   partitioner_size_t conv mix p = mix (conv (key p)) \<and>
   (partitioner_eq p q \<longrightarrow> partitioner_size_t conv mix p = partitioner_size_t conv mix q) \<and>
   key (partitioner k) = k"
  by (simp add: partitioner_eq_def key_def partitioner_size_t_def partitioner_def)

text \<open>The theorem at the keys 7 and 8, with a toy mixing function.\<close>

theorem partitioner_eq_key_witness:
  "partitioner_eq (partitioner (7::nat)) (partitioner 7) \<and>
   \<not> partitioner_eq (partitioner (7::nat)) (partitioner 8) \<and>
   partitioner_size_t of_nat (\<lambda>h. h * 3 + 1) (partitioner (7::nat)) = 22 \<and>
   partitioner_size_t of_nat (\<lambda>h. h * 3 + 1) (partitioner (3 + 4 :: nat)) =
   partitioner_size_t of_nat (\<lambda>h. h * 3 + 1) (partitioner (7::nat))"
  using partitioner_eq_key[of "partitioner (7::nat)" "partitioner (7::nat)" of_nat "\<lambda>h. h * 3 + 1" "7::nat"]
        partitioner_eq_key[of "partitioner (7::nat)" "partitioner (8::nat)" of_nat "\<lambda>h. h * 3 + 1" "8::nat"]
  by simp

section \<open>Steps of a worker\<close>

lemma step_cases:
  assumes "step J ds t st = Some st'"
  obtains
    (crash) "t < length (workers st)" "w_pc (workers st ! t) = LoopHead"
      "w_i (workers st ! t) \<noteq> w_end (workers st ! t)" "length ds \<le> w_i (workers st ! t)"
      "st' = st\<lparr>workers := (workers st)[t := (workers st ! t)\<lparr>w_pc := Crashed\<rparr>]\<rparr>"
  | (acquire) "t < length (workers st)" "w_pc (workers st ! t) = LoopHead"
      "w_i (workers st ! t) \<noteq> w_end (workers st ! t)" "w_i (workers st ! t) < length ds"
      "held st (cur_key J ds (workers st ! t)) = None"
      "st' = st\<lparr>held := (held st)(cur_key J ds (workers st ! t) \<mapsto> t),
                workers := (workers st)[t := (workers st ! t)\<lparr>w_pc := HasLock\<rparr>],
                events := events st @ [Acquire t (cur_key J ds (workers st ! t))]\<rparr>"
  | (lookup) "t < length (workers st)" "w_pc (workers st ! t) = HasLock"
      "st' = st\<lparr>store := (case store st (cur_key J ds (workers st ! t)) of
                            None \<Rightarrow> (store st)(cur_key J ds (workers st ! t) \<mapsto> init_value J)
                          | Some x \<Rightarrow> store st),
                workers := (workers st)[t := (workers st ! t)
                   \<lparr>w_pc := Loaded (case store st (cur_key J ds (workers st ! t)) of
                                     None \<Rightarrow> init_value J | Some x \<Rightarrow> x)\<rparr>],
                events := events st @ [Lookup t (cur_key J ds (workers st ! t))]\<rparr>"
  | (writeback) x where "t < length (workers st)" "w_pc (workers st ! t) = Loaded x"
      "st' = st\<lparr>store := (store st)(cur_key J ds (workers st ! t) \<mapsto>
                            reduce J x (mapper_value J (ds ! w_i (workers st ! t)))),
                workers := (workers st)[t := (workers st ! t)\<lparr>w_pc := Stored\<rparr>],
                events := events st @ [Merge t (cur_key J ds (workers st ! t))
                                         (mapper_value J (ds ! w_i (workers st ! t)))]\<rparr>"
  | (release) "t < length (workers st)" "w_pc (workers st ! t) = Stored"
      "st' = st\<lparr>held := (held st)(cur_key J ds (workers st ! t) := None),
                workers := (workers st)[t := (workers st ! t)
                   \<lparr>w_i := w_i (workers st ! t) + 1, w_pc := LoopHead\<rparr>],
                events := events st @ [Release t (cur_key J ds (workers st ! t))]\<rparr>"
proof -
  from assms have t: "t < length (workers st)"
    by (auto simp: step_def split: if_splits)
  show ?thesis
  proof (cases "w_pc (workers st ! t)")
    case LoopHead
    with assms t show ?thesis
      by (auto simp: step_def Let_def store_lock_def cur_key_def
               split: if_splits option.splits intro: crash acquire)
  next
    case HasLock
    with assms t show ?thesis
      by (intro lookup) (auto simp: step_def Let_def store_index_def cur_key_def
               split: option.splits)
  next
    case (Loaded x)
    with assms t show ?thesis
      by (intro writeback[of x]) (auto simp: step_def Let_def cur_key_def)
  next
    case Stored
    with assms t show ?thesis
      by (intro release) (auto simp: step_def Let_def cur_key_def store_unlock_def)
  next
    case Crashed
    with assms t show ?thesis by (simp add: step_def Let_def)
  qed
qed

lemma map_update_same:
  assumes "f w = f (xs ! t)"
  shows "map f (xs[t := w]) = map f xs"
proof (cases "t < length xs")
  case True
  with assms have "(map f xs)[t := f w] = (map f xs)[t := map f xs ! t]" by simp
  then show ?thesis by (simp add: map_update)
next
  case False
  then have "xs[t := w] = xs" by (intro list_update_beyond) simp
  then show ?thesis by simp
qed

lemma step_length: "step J ds t st = Some st' \<Longrightarrow> length (workers st') = length (workers st)"
  by (erule step_cases) simp_all

lemma step_bounds:
  "step J ds t st = Some st' \<Longrightarrow>
   map w_begin (workers st') = map w_begin (workers st) \<and>
   map w_end (workers st') = map w_end (workers st)"
  by (erule step_cases) (simp_all add: map_update_same)

lemma step_other:
  "step J ds t st = Some st' \<Longrightarrow> u \<noteq> t \<Longrightarrow> workers st' ! u = workers st ! u"
  by (erule step_cases) simp_all

lemma wf_sys_nth: "wf_sys ds st \<Longrightarrow> t < length (workers st) \<Longrightarrow> wf_worker ds (workers st ! t)"
  by (simp add: wf_sys_def list_all_length)

lemma wf_sys_update:
  "wf_sys ds st \<Longrightarrow> wf_worker ds w \<Longrightarrow> workers st' = (workers st)[t := w] \<Longrightarrow> wf_sys ds st'"
  unfolding wf_sys_def list_all_length
proof (intro allI impI)
  fix n
  assume a: "\<forall>n<length (workers st). wf_worker ds (workers st ! n)" "wf_worker ds w"
    "workers st' = (workers st)[t := w]" "n < length (workers st')"
  then show "wf_worker ds (workers st' ! n)" by (cases "n = t") simp_all
qed

lemma step_wf:
  assumes "step J ds t st = Some st'" "wf_sys ds st"
  shows "wf_sys ds st'"
  using assms(1)
proof (cases rule: step_cases)
  case crash
  with wf_sys_nth[OF assms(2), of t] show ?thesis
    by (simp add: wf_worker_def)
next
  case acquire
  with wf_sys_nth[OF assms(2), of t] show ?thesis
    by (intro wf_sys_update[OF assms(2), where t = t and w = "(workers st ! t)\<lparr>w_pc := HasLock\<rparr>"])
       (auto simp: wf_worker_def in_cs_def)
next
  case lookup
  with wf_sys_nth[OF assms(2), of t] show ?thesis
    by (intro wf_sys_update[OF assms(2), where t = t and w = "(workers st ! t)
                   \<lparr>w_pc := Loaded (case store st (cur_key J ds (workers st ! t)) of
                                     None \<Rightarrow> init_value J | Some x \<Rightarrow> x)\<rparr>"])
       (auto simp: wf_worker_def in_cs_def)
next
  case (writeback x)
  with wf_sys_nth[OF assms(2), of t] show ?thesis
    by (intro wf_sys_update[OF assms(2), where t = t and w = "(workers st ! t)\<lparr>w_pc := Stored\<rparr>"])
       (auto simp: wf_worker_def in_cs_def)
next
  case release
  with wf_sys_nth[OF assms(2), of t] show ?thesis
    by (intro wf_sys_update[OF assms(2), where t = t and w = "(workers st ! t)
                   \<lparr>w_i := w_i (workers st ! t) + 1, w_pc := LoopHead\<rparr>"])
       (auto simp: wf_worker_def in_cs_def)
qed

lemma lock_invI:
  assumes "\<And>k u. held st k = Some u \<Longrightarrow>
             u < length (workers st) \<and> in_cs (workers st ! u) \<and> cur_key J ds (workers st ! u) = k"
      and "\<And>u. u < length (workers st) \<Longrightarrow> in_cs (workers st ! u) \<Longrightarrow>
             held st (cur_key J ds (workers st ! u)) = Some u"
  shows "lock_inv J ds st"
  using assms unfolding lock_inv_def by blast

lemma lock_inv_held:
  "lock_inv J ds st \<Longrightarrow> held st k = Some u \<Longrightarrow>
   u < length (workers st) \<and> in_cs (workers st ! u) \<and> cur_key J ds (workers st ! u) = k"
  unfolding lock_inv_def by blast

lemma lock_inv_cs:
  "lock_inv J ds st \<Longrightarrow> u < length (workers st) \<Longrightarrow> in_cs (workers st ! u) \<Longrightarrow>
   held st (cur_key J ds (workers st ! u)) = Some u"
  unfolding lock_inv_def by blast

lemma step_lock_inv:
  assumes "step J ds t st = Some st'" "lock_inv J ds st"
  shows "lock_inv J ds st'"
  using assms(1)
proof (cases rule: step_cases)
  case crash
  have nt: "\<not> in_cs (workers st ! t)" using crash by (simp add: in_cs_def)
  show ?thesis
  proof (rule lock_invI)
    fix k u assume "held st' k = Some u"
    then have h: "held st k = Some u" using crash by simp
    from lock_inv_held[OF assms(2) h] nt have "u \<noteq> t" by auto
    with lock_inv_held[OF assms(2) h] show
      "u < length (workers st') \<and> in_cs (workers st' ! u) \<and> cur_key J ds (workers st' ! u) = k"
      using crash by simp
  next
    fix u assume u: "u < length (workers st')" "in_cs (workers st' ! u)"
    then have "u \<noteq> t" using crash by (auto simp: in_cs_def)
    with u lock_inv_cs[OF assms(2), of u] show "held st' (cur_key J ds (workers st' ! u)) = Some u"
      using crash by simp
  qed
next
  case acquire
  have nt: "\<not> in_cs (workers st ! t)" using acquire by (simp add: in_cs_def)
  let ?k = "cur_key J ds (workers st ! t)"
  show ?thesis
  proof (rule lock_invI)
    fix k u assume hk: "held st' k = Some u"
    show "u < length (workers st') \<and> in_cs (workers st' ! u) \<and> cur_key J ds (workers st' ! u) = k"
    proof (cases "k = ?k")
      case True
      with hk acquire have "u = t" by simp
      with True acquire show ?thesis by (simp add: in_cs_def cur_key_def)
    next
      case False
      with hk acquire have h: "held st k = Some u" by simp
      from lock_inv_held[OF assms(2) h] nt have "u \<noteq> t" by auto
      with lock_inv_held[OF assms(2) h] show ?thesis using acquire by simp
    qed
  next
    fix u assume u: "u < length (workers st')" "in_cs (workers st' ! u)"
    show "held st' (cur_key J ds (workers st' ! u)) = Some u"
    proof (cases "u = t")
      case True
      with acquire show ?thesis by (simp add: cur_key_def)
    next
      case False
      with u acquire have c: "u < length (workers st)" "in_cs (workers st ! u)" by simp_all
      have h: "held st (cur_key J ds (workers st ! u)) = Some u"
        by (rule lock_inv_cs[OF assms(2) c])
      with acquire(5) have "cur_key J ds (workers st ! u) \<noteq> ?k" by auto
      with h False show ?thesis using acquire by simp
    qed
  qed
next
  case lookup
  have it: "in_cs (workers st ! t)" using lookup by (simp add: in_cs_def)
  show ?thesis
  proof (rule lock_invI)
    fix k u assume "held st' k = Some u"
    then have h: "held st k = Some u" using lookup by simp
    from lock_inv_held[OF assms(2) h] show
      "u < length (workers st') \<and> in_cs (workers st' ! u) \<and> cur_key J ds (workers st' ! u) = k"
      using lookup by (cases "u = t") (simp_all add: in_cs_def cur_key_def)
  next
    fix u assume u: "u < length (workers st')" "in_cs (workers st' ! u)"
    show "held st' (cur_key J ds (workers st' ! u)) = Some u"
    proof (cases "u = t")
      case True
      with lock_inv_cs[OF assms(2) lookup(1) it] show ?thesis
        using lookup by (simp add: cur_key_def)
    next
      case False
      with u lock_inv_cs[OF assms(2), of u] show ?thesis using lookup by simp
    qed
  qed
next
  case (writeback x)
  have it: "in_cs (workers st ! t)" using writeback by (simp add: in_cs_def)
  show ?thesis
  proof (rule lock_invI)
    fix k u assume "held st' k = Some u"
    then have h: "held st k = Some u" using writeback by simp
    from lock_inv_held[OF assms(2) h] show
      "u < length (workers st') \<and> in_cs (workers st' ! u) \<and> cur_key J ds (workers st' ! u) = k"
      using writeback by (cases "u = t") (simp_all add: in_cs_def cur_key_def)
  next
    fix u assume u: "u < length (workers st')" "in_cs (workers st' ! u)"
    show "held st' (cur_key J ds (workers st' ! u)) = Some u"
    proof (cases "u = t")
      case True
      with lock_inv_cs[OF assms(2) writeback(1) it] show ?thesis
        using writeback by (simp add: cur_key_def)
    next
      case False
      with u lock_inv_cs[OF assms(2), of u] show ?thesis using writeback by simp
    qed
  qed
next
  case release
  have it: "in_cs (workers st ! t)" using release by (simp add: in_cs_def)
  let ?k = "cur_key J ds (workers st ! t)"
  have ht: "held st ?k = Some t" by (rule lock_inv_cs[OF assms(2) release(1) it])
  show ?thesis
  proof (rule lock_invI)
    fix k u assume hk: "held st' k = Some u"
    then have kk: "k \<noteq> ?k" and h: "held st k = Some u"
      using release by (auto split: if_splits)
    from lock_inv_held[OF assms(2) h] kk have "u \<noteq> t" by auto
    with lock_inv_held[OF assms(2) h] show
      "u < length (workers st') \<and> in_cs (workers st' ! u) \<and> cur_key J ds (workers st' ! u) = k"
      using release by simp
  next
    fix u assume u: "u < length (workers st')" "in_cs (workers st' ! u)"
    then have ut: "u \<noteq> t" using release by (auto simp: in_cs_def)
    with u release have c: "u < length (workers st)" "in_cs (workers st ! u)" by simp_all
    have h: "held st (cur_key J ds (workers st ! u)) = Some u"
      by (rule lock_inv_cs[OF assms(2) c])
    with ht ut have "cur_key J ds (workers st ! u) \<noteq> ?k" by auto
    with h ut show "held st' (cur_key J ds (workers st' ! u)) = Some u"
      using release by simp
  qed
qed

text \<open>Two workers in their critical sections are at different keys.\<close>

lemma lock_inv_mutex:
  assumes "lock_inv J ds st" "t < length (workers st)" "u < length (workers st)"
    "in_cs (workers st ! t)" "in_cs (workers st ! u)"
    "cur_key J ds (workers st ! t) = cur_key J ds (workers st ! u)"
  shows "t = u"
proof -
  have "held st (cur_key J ds (workers st ! t)) = Some t"
    by (rule lock_inv_cs[OF assms(1,2,4)])
  moreover have "held st (cur_key J ds (workers st ! t)) = Some u"
    unfolding assms(6) by (rule lock_inv_cs[OF assms(1,3,5)])
  ultimately have "Some t = Some u" by (rule trans[OF sym])
  then show ?thesis by (simp only: option.inject)
qed

section \<open>The events of each worker\<close>

lemma slice_Suc: "b \<le> i \<Longrightarrow> slice xs b (Suc i) = slice xs b i @ [xs ! i]"
  by (simp add: slice_def)

lemma slice_empty: "slice xs b b = []"
  by (simp add: slice_def)

lemma done_events_start: "done_events J ds t (start tk) = []"
  by (simp add: done_events_def start_def slice_def pc_rank_def)

lemma done_events_acquire:
  "w_pc w = LoopHead \<Longrightarrow>
   done_events J ds t (w\<lparr>w_pc := HasLock\<rparr>) = done_events J ds t w @ [Acquire t (cur_key J ds w)]"
  by (simp add: done_events_def pc_rank_def record_events_def cur_key_def)

lemma done_events_lookup:
  "w_pc w = HasLock \<Longrightarrow>
   done_events J ds t (w\<lparr>w_pc := Loaded x\<rparr>) = done_events J ds t w @ [Lookup t (cur_key J ds w)]"
  by (simp add: done_events_def pc_rank_def record_events_def cur_key_def numeral_2_eq_2)

lemma done_events_writeback:
  "w_pc w = Loaded x \<Longrightarrow>
   done_events J ds t (w\<lparr>w_pc := Stored\<rparr>) =
   done_events J ds t w @ [Merge t (cur_key J ds w) (mapper_value J (ds ! w_i w))]"
  by (simp add: done_events_def pc_rank_def record_events_def cur_key_def
      numeral_2_eq_2 numeral_3_eq_3)

lemma done_events_release:
  "w_pc w = Stored \<Longrightarrow> w_begin w \<le> w_i w \<Longrightarrow>
   done_events J ds t (w\<lparr>w_i := Suc (w_i w), w_pc := LoopHead\<rparr>) =
   done_events J ds t w @ [Release t (cur_key J ds w)]"
  by (simp add: done_events_def pc_rank_def record_events_def cur_key_def
      numeral_3_eq_3 slice_Suc)

lemma done_events_crash:
  "w_pc w = LoopHead \<Longrightarrow> done_events J ds t (w\<lparr>w_pc := Crashed\<rparr>) = done_events J ds t w"
  by (simp add: done_events_def pc_rank_def)

lemma events_inv_extend:
  assumes inv: "events_inv J ds st"
    and t: "t < length (workers st)"
    and ws: "workers st' = (workers st)[t := w']"
    and ev: "events st' = events st @ [e]"
    and ow: "owner e = t"
    and de: "done_events J ds t w' = done_events J ds t (workers st ! t) @ [e]"
  shows "events_inv J ds st'"
  unfolding events_inv_def
proof (intro conjI ballI allI impI)
  fix e' assume "e' \<in> set (events st')"
  then show "owner e' < length (workers st')"
    using inv t ow by (auto simp: events_inv_def ws ev)
next
  fix u assume u: "u < length (workers st')"
  then have u': "u < length (workers st)" by (simp add: ws)
  from inv u' have f: "filter (\<lambda>e. owner e = u) (events st) = done_events J ds u (workers st ! u)"
    by (simp add: events_inv_def)
  show "filter (\<lambda>e. owner e = u) (events st') = done_events J ds u (workers st' ! u)"
  proof (cases "u = t")
    case True
    with f de t ow show ?thesis by (simp add: ws ev)
  next
    case False
    with f ow show ?thesis by (simp add: ws ev)
  qed
qed

lemma step_events_inv:
  assumes "step J ds t st = Some st'" "events_inv J ds st" "wf_sys ds st"
  shows "events_inv J ds st'"
  using assms(1)
proof (cases rule: step_cases)
  case crash
  have "\<forall>u < length (workers st'). done_events J ds u (workers st' ! u) =
          done_events J ds u (workers st ! u)"
  proof (intro allI impI)
    fix u assume "u < length (workers st')"
    then show "done_events J ds u (workers st' ! u) = done_events J ds u (workers st ! u)"
      using crash by (cases "u = t") (simp_all add: done_events_crash)
  qed
  with assms(2) crash show ?thesis by (simp add: events_inv_def)
next
  case acquire
  show ?thesis
    by (rule events_inv_extend[OF assms(2) acquire(1), where
          w' = "(workers st ! t)\<lparr>w_pc := HasLock\<rparr>"
          and e = "Acquire t (cur_key J ds (workers st ! t))"])
       (simp_all add: acquire done_events_acquire)
next
  case lookup
  show ?thesis
    by (rule events_inv_extend[OF assms(2) lookup(1), where
          w' = "(workers st ! t)\<lparr>w_pc := Loaded (case store st (cur_key J ds (workers st ! t)) of
                                     None \<Rightarrow> init_value J | Some x \<Rightarrow> x)\<rparr>"
          and e = "Lookup t (cur_key J ds (workers st ! t))"])
       (simp_all add: lookup done_events_lookup)
next
  case (writeback x)
  show ?thesis
    by (rule events_inv_extend[OF assms(2) writeback(1), where
          w' = "(workers st ! t)\<lparr>w_pc := Stored\<rparr>"
          and e = "Merge t (cur_key J ds (workers st ! t))
                     (mapper_value J (ds ! w_i (workers st ! t)))"])
       (simp_all add: writeback done_events_writeback)
next
  case release
  have "w_begin (workers st ! t) \<le> w_i (workers st ! t)"
    using wf_sys_nth[OF assms(3) release(1)] by (simp add: wf_worker_def)
  then show ?thesis
    by (intro events_inv_extend[OF assms(2) release(1), where
          w' = "(workers st ! t)\<lparr>w_i := w_i (workers st ! t) + 1, w_pc := LoopHead\<rparr>"
          and e = "Release t (cur_key J ds (workers st ! t))"])
       (simp_all add: release done_events_release)
qed

section \<open>The store and the merges\<close>

lemma merged_append: "merged (xs @ ys) = merged xs @ merged ys"
  by (induction xs rule: merged.induct) simp_all

lemma is_loaded_iff: "is_loaded w \<longleftrightarrow> (\<exists>x. w_pc w = Loaded x)"
  by (cases "w_pc w") (simp_all add: is_loaded_def)

lemma loaded_in_cs: "is_loaded w \<Longrightarrow> in_cs w"
  by (cases "w_pc w") (simp_all add: is_loaded_def in_cs_def)

lemma pending_iff:
  "pending J ds st k \<longleftrightarrow>
   (\<exists>u < length (workers st). is_loaded (workers st ! u) \<and> cur_key J ds (workers st ! u) = k)"
  by (simp add: pending_def list_ex_length)

lemma store_invI:
  assumes "\<And>u x. u < length (workers st) \<Longrightarrow> w_pc (workers st ! u) = Loaded x \<Longrightarrow>
             store st (cur_key J ds (workers st ! u)) = Some x"
      and "\<And>k. pending J ds st k \<Longrightarrow>
             store st k = Some (case merged_store J s0 st k of None \<Rightarrow> init_value J | Some x \<Rightarrow> x)"
      and "\<And>k. \<not> pending J ds st k \<Longrightarrow> store st k = merged_store J s0 st k"
  shows "store_inv J ds s0 st"
  using assms unfolding store_inv_def by auto

lemma store_inv_loaded:
  "store_inv J ds s0 st \<Longrightarrow> u < length (workers st) \<Longrightarrow> w_pc (workers st ! u) = Loaded x \<Longrightarrow>
   store st (cur_key J ds (workers st ! u)) = Some x"
  unfolding store_inv_def by blast

lemma store_inv_pending:
  "store_inv J ds s0 st \<Longrightarrow> pending J ds st k \<Longrightarrow>
   store st k = Some (case merged_store J s0 st k of None \<Rightarrow> init_value J | Some x \<Rightarrow> x)"
  unfolding store_inv_def by simp

lemma store_inv_idle:
  "store_inv J ds s0 st \<Longrightarrow> \<not> pending J ds st k \<Longrightarrow> store st k = merged_store J s0 st k"
  unfolding store_inv_def by simp

text \<open>Steps that neither read nor write the store.\<close>

lemma store_inv_silent:
  assumes inv: "store_inv J ds s0 st"
    and t: "t < length (workers st)"
    and ws: "workers st' = (workers st)[t := w']"
    and nl: "\<not> is_loaded (workers st ! t)" "\<not> is_loaded w'"
    and s: "store st' = store st"
    and m: "merged (events st') = merged (events st)"
  shows "store_inv J ds s0 st'"
proof -
  have ms: "merged_store J s0 st' = merged_store J s0 st" by (simp add: merged_store_def m)
  have ld: "is_loaded (workers st' ! u) \<and> cur_key J ds (workers st' ! u) = k \<longleftrightarrow>
            is_loaded (workers st ! u) \<and> cur_key J ds (workers st ! u) = k"
    if "u < length (workers st)" for u k
    using that nl t by (cases "u = t") (simp_all add: ws)
  have pe: "pending J ds st' k = pending J ds st k" for k
    unfolding pending_iff using ld by (auto simp: ws)
  show ?thesis
  proof (rule store_invI)
    fix u x assume u: "u < length (workers st')" "w_pc (workers st' ! u) = Loaded x"
    then have "is_loaded (workers st' ! u)" by (simp add: is_loaded_iff)
    with nl t have ut: "u \<noteq> t" by (auto simp: ws)
    with u have "u < length (workers st)" "w_pc (workers st ! u) = Loaded x"
      by (simp_all add: ws)
    from store_inv_loaded[OF inv this] ut
    show "store st' (cur_key J ds (workers st' ! u)) = Some x" by (simp add: ws s)
  next
    fix k assume "pending J ds st' k"
    then have "pending J ds st k" by (simp add: pe)
    from store_inv_pending[OF inv this]
    show "store st' k =
            Some (case merged_store J s0 st' k of None \<Rightarrow> init_value J | Some x \<Rightarrow> x)"
      by (simp add: s ms)
  next
    fix k assume "\<not> pending J ds st' k"
    then have "\<not> pending J ds st k" by (simp add: pe)
    from store_inv_idle[OF inv this]
    show "store st' k = merged_store J s0 st' k" by (simp add: s ms)
  qed
qed

lemma step_store_inv:
  assumes "step J ds t st = Some st'" "store_inv J ds s0 st" "lock_inv J ds st"
  shows "store_inv J ds s0 st'"
  using assms(1)
proof (cases rule: step_cases)
  case crash
  show ?thesis
    by (rule store_inv_silent[OF assms(2) crash(1), where w' = "(workers st ! t)\<lparr>w_pc := Crashed\<rparr>"])
       (simp_all add: crash is_loaded_def)
next
  case acquire
  show ?thesis
    by (rule store_inv_silent[OF assms(2) acquire(1), where w' = "(workers st ! t)\<lparr>w_pc := HasLock\<rparr>"])
       (simp_all add: acquire is_loaded_def merged_append)
next
  case release
  show ?thesis
    by (rule store_inv_silent[OF assms(2) release(1), where
          w' = "(workers st ! t)\<lparr>w_i := w_i (workers st ! t) + 1, w_pc := LoopHead\<rparr>"])
       (simp_all add: release is_loaded_def merged_append)
next
  case lookup
  let ?k = "cur_key J ds (workers st ! t)"
  let ?x = "case store st ?k of None \<Rightarrow> init_value J | Some x \<Rightarrow> x"
  have cs: "in_cs (workers st ! t)" and nl: "\<not> is_loaded (workers st ! t)"
    using lookup by (simp_all add: in_cs_def is_loaded_def)
  have ms: "merged_store J s0 st' = merged_store J s0 st"
    by (simp add: merged_store_def lookup merged_append)
  have st_k: "store st' ?k = Some ?x" by (simp add: lookup split: option.splits)
  have st_o: "store st' k = store st k" if "k \<noteq> ?k" for k
    using that by (simp add: lookup split: option.splits)
  have other_key: "cur_key J ds (workers st ! u) \<noteq> ?k"
    if "u < length (workers st)" "u \<noteq> t" "in_cs (workers st ! u)" for u
    using lock_inv_mutex[OF assms(3) that(1) lookup(1) that(3) cs] that(2) by blast
  have np: "\<not> pending J ds st ?k"
  proof
    assume "pending J ds st ?k"
    then obtain u where u: "u < length (workers st)" "is_loaded (workers st ! u)"
        "cur_key J ds (workers st ! u) = ?k"
      unfolding pending_iff by blast
    with nl have "u \<noteq> t" by auto
    from other_key[OF u(1) this loaded_in_cs[OF u(2)]] u(3) show False by simp
  qed
  have p_k: "pending J ds st' ?k"
    unfolding pending_iff using lookup(1)
    by (intro exI[of _ t]) (simp add: lookup is_loaded_def cur_key_def)
  have p_o: "pending J ds st' k = pending J ds st k" if "k \<noteq> ?k" for k
  proof -
    have "is_loaded (workers st' ! u) \<and> cur_key J ds (workers st' ! u) = k \<longleftrightarrow>
          is_loaded (workers st ! u) \<and> cur_key J ds (workers st ! u) = k"
      if "u < length (workers st)" for u
      using that \<open>k \<noteq> ?k\<close> nl lookup(1)
      by (cases "u = t") (auto simp: lookup cur_key_def)
    then show ?thesis unfolding pending_iff by (auto simp: lookup)
  qed
  show ?thesis
  proof (rule store_invI)
    fix u x assume u: "u < length (workers st')" "w_pc (workers st' ! u) = Loaded x"
    show "store st' (cur_key J ds (workers st' ! u)) = Some x"
    proof (cases "u = t")
      case True
      with u lookup(1) have "x = ?x" by (simp add: lookup)
      with True lookup(1) st_k show ?thesis by (simp add: lookup cur_key_def)
    next
      case False
      with u have u': "u < length (workers st)" "w_pc (workers st ! u) = Loaded x"
        by (simp_all add: lookup)
      then have "in_cs (workers st ! u)" by (simp add: in_cs_def)
      from other_key[OF u'(1) False this] store_inv_loaded[OF assms(2) u'] False
      show ?thesis by (simp add: lookup(3) split: option.splits)
    qed
  next
    fix k assume p: "pending J ds st' k"
    show "store st' k =
            Some (case merged_store J s0 st' k of None \<Rightarrow> init_value J | Some x \<Rightarrow> x)"
    proof (cases "k = ?k")
      case True
      have "store st ?k = merged_store J s0 st ?k" by (rule store_inv_idle[OF assms(2) np])
      with st_k True show ?thesis by (simp add: ms)
    next
      case False
      with p have "pending J ds st k" by (simp add: p_o)
      from store_inv_pending[OF assms(2) this] False show ?thesis by (simp add: st_o ms)
    qed
  next
    fix k assume p: "\<not> pending J ds st' k"
    with p_k have k: "k \<noteq> ?k" by auto
    with p have "\<not> pending J ds st k" by (simp add: p_o)
    from store_inv_idle[OF assms(2) this] k show "store st' k = merged_store J s0 st' k"
      by (simp add: st_o ms)
  qed
next
  case (writeback x)
  let ?k = "cur_key J ds (workers st ! t)"
  let ?v = "mapper_value J (ds ! w_i (workers st ! t))"
  have cs: "in_cs (workers st ! t)" and il: "is_loaded (workers st ! t)"
    using writeback by (simp_all add: in_cs_def is_loaded_def)
  have ms: "merged_store J s0 st' = merge_into J (?k, ?v) (merged_store J s0 st)"
    by (simp add: merged_store_def writeback merged_append)
  have other_key: "cur_key J ds (workers st ! u) \<noteq> ?k"
    if "u < length (workers st)" "u \<noteq> t" "in_cs (workers st ! u)" for u
    using lock_inv_mutex[OF assms(3) that(1) writeback(1) that(3) cs] that(2) by blast
  have pk: "pending J ds st ?k"
    unfolding pending_iff using writeback(1) il by blast
  have sx: "store st ?k = Some x" by (rule store_inv_loaded[OF assms(2) writeback(1,2)])
  have "store st ?k =
          Some (case merged_store J s0 st ?k of None \<Rightarrow> init_value J | Some x \<Rightarrow> x)"
    by (rule store_inv_pending[OF assms(2) pk])
  with sx have x: "(case merged_store J s0 st ?k of None \<Rightarrow> init_value J | Some x \<Rightarrow> x) = x"
    by simp
  have ms_k: "merged_store J s0 st' ?k = Some (reduce J x ?v)"
    by (simp add: ms merge_into_def x)
  have ms_o: "merged_store J s0 st' k = merged_store J s0 st k" if "k \<noteq> ?k" for k
    using that by (simp add: ms merge_into_def)
  have st_k: "store st' ?k = Some (reduce J x ?v)" by (simp add: writeback)
  have st_o: "store st' k = store st k" if "k \<noteq> ?k" for k
    using that by (simp add: writeback)
  have np: "\<not> pending J ds st' ?k"
  proof
    assume "pending J ds st' ?k"
    then obtain u where u: "u < length (workers st')" "is_loaded (workers st' ! u)"
        "cur_key J ds (workers st' ! u) = ?k"
      unfolding pending_iff by blast
    have ut: "u \<noteq> t"
    proof
      assume "u = t"
      with u(1,2) show False by (simp add: writeback is_loaded_def)
    qed
    with u have u': "u < length (workers st)" "is_loaded (workers st ! u)"
        "cur_key J ds (workers st ! u) = ?k"
      by (simp_all add: writeback)
    from other_key[OF u'(1) ut loaded_in_cs[OF u'(2)]] u'(3) show False by simp
  qed
  have p_o: "pending J ds st' k = pending J ds st k" if "k \<noteq> ?k" for k
  proof -
    have "is_loaded (workers st' ! u) \<and> cur_key J ds (workers st' ! u) = k \<longleftrightarrow>
          is_loaded (workers st ! u) \<and> cur_key J ds (workers st ! u) = k"
      if "u < length (workers st)" for u
      using that \<open>k \<noteq> ?k\<close> writeback(1)
      by (cases "u = t") (auto simp: writeback cur_key_def is_loaded_def)
    then show ?thesis unfolding pending_iff by (auto simp: writeback)
  qed
  show ?thesis
  proof (rule store_invI)
    fix u y assume u: "u < length (workers st')" "w_pc (workers st' ! u) = Loaded y"
    have ut: "u \<noteq> t"
    proof
      assume "u = t"
      with u show False by (simp add: writeback)
    qed
    with u have u': "u < length (workers st)" "w_pc (workers st ! u) = Loaded y"
      by (simp_all add: writeback)
    then have "in_cs (workers st ! u)" by (simp add: in_cs_def)
    from other_key[OF u'(1) ut this] store_inv_loaded[OF assms(2) u'] ut
    show "store st' (cur_key J ds (workers st' ! u)) = Some y"
      by (simp add: writeback(3))
  next
    fix k assume p: "pending J ds st' k"
    with np have k: "k \<noteq> ?k" by auto
    with p have "pending J ds st k" by (simp add: p_o)
    from store_inv_pending[OF assms(2) this] k
    show "store st' k =
            Some (case merged_store J s0 st' k of None \<Rightarrow> init_value J | Some x \<Rightarrow> x)"
      by (simp add: st_o ms_o)
  next
    fix k assume p: "\<not> pending J ds st' k"
    show "store st' k = merged_store J s0 st' k"
    proof (cases "k = ?k")
      case True
      with st_k ms_k show ?thesis by simp
    next
      case False
      with p have "\<not> pending J ds st k" by (simp add: p_o)
      from store_inv_idle[OF assms(2) this] False show ?thesis by (simp add: st_o ms_o)
    qed
  qed
qed

section \<open>Runs\<close>

lemma step_inv:
  assumes "step J ds t st = Some st'" "sys_inv J ds s0 st"
  shows "sys_inv J ds s0 st'"
  using assms step_wf[OF assms(1)] step_lock_inv[OF assms(1)] step_store_inv[OF assms(1)]
    step_events_inv[OF assms(1)]
  by (simp add: sys_inv_def)

lemma run_sched_inv: "sys_inv J ds s0 st \<Longrightarrow> sys_inv J ds s0 (run_sched J ds sched st)"
proof (induction sched arbitrary: st)
  case Nil
  then show ?case by simp
next
  case (Cons t sched)
  show ?case
  proof (cases "step J ds t st")
    case None
    with Cons show ?thesis by simp
  next
    case (Some st')
    have "sys_inv J ds s0 st'" by (rule step_inv[OF Some Cons.prems])
    then have "sys_inv J ds s0 (run_sched J ds sched st')" by (rule Cons.IH)
    with Some show ?thesis by simp
  qed
qed

lemma run_sched_bounds:
  "map w_begin (workers (run_sched J ds sched st)) = map w_begin (workers st) \<and>
   map w_end (workers (run_sched J ds sched st)) = map w_end (workers st)"
proof (induction sched arbitrary: st)
  case Nil
  show ?case by simp
next
  case (Cons t sched)
  show ?case
  proof (cases "step J ds t st")
    case None
    with Cons show ?thesis by simp
  next
    case (Some st')
    with Cons[of st'] step_bounds[OF Some] show ?thesis by simp
  qed
qed

lemma run_sched_length:
  "length (workers (run_sched J ds sched st)) = length (workers st)"
  using run_sched_bounds[of J ds sched st] by (metis length_map)

lemma run_sched_append:
  "run_sched J ds (xs @ ys) st = run_sched J ds ys (run_sched J ds xs st)"
  by (induction xs arbitrary: st) simp_all

subsection \<open>The initial state\<close>

lemma work_ranges_ordered:
  assumes "0 < N" "t \<in> set (work_ranges n N)"
  shows "t_begin t \<le> t_end t \<and> t_end t \<le> n"
proof -
  from assms obtain j where j: "j < N" "t = work_ranges n N ! j"
    by (auto simp: in_set_conv_nth length_work_ranges)
  show ?thesis
  proof (cases "j < N - 1")
    case True
    then have "j + 1 \<le> N" by simp
    from chunk_bound[OF assms(1) this] True j show ?thesis
      by (simp add: nth_work_ranges new_task_def)
  next
    case False
    have "N - 1 \<le> N" by simp
    from chunk_bound[OF assms(1) this] False j show ?thesis
      by (simp add: nth_work_ranges new_task_def)
  qed
qed

lemma init_inv:
  assumes "\<forall>t \<in> set ts. t_begin t \<le> t_end t \<and> t_end t \<le> length ds"
  shows "sys_inv J ds s0 (init_sys s0 (map start ts))"
proof -
  have w: "wf_sys ds (init_sys s0 (map start ts))"
    using assms by (auto simp: wf_sys_def init_sys_def list_all_iff wf_worker_def start_def in_cs_def)
  have l: "lock_inv J ds (init_sys s0 (map start ts))"
    by (rule lock_invI) (simp_all add: init_sys_def start_def in_cs_def)
  have np: "\<not> pending J ds (init_sys s0 (map start ts)) k" for k
    by (simp add: pending_def list_ex_iff init_sys_def start_def is_loaded_def)
  have s: "store_inv J ds s0 (init_sys s0 (map start ts))"
  proof (rule store_invI)
    fix u x
    assume "u < length (workers (init_sys s0 (map start ts)))"
      "w_pc (workers (init_sys s0 (map start ts)) ! u) = Loaded x"
    then show "store (init_sys s0 (map start ts))
                 (cur_key J ds (workers (init_sys s0 (map start ts)) ! u)) = Some x"
      by (simp add: init_sys_def start_def)
  next
    fix k assume "pending J ds (init_sys s0 (map start ts)) k"
    with np show "store (init_sys s0 (map start ts)) k =
        Some (case merged_store J s0 (init_sys s0 (map start ts)) k of
                None \<Rightarrow> init_value J | Some x \<Rightarrow> x)" by simp
  next
    fix k
    show "store (init_sys s0 (map start ts)) k = merged_store J s0 (init_sys s0 (map start ts)) k"
      by (simp add: init_sys_def merged_store_def)
  qed
  have e: "events_inv J ds (init_sys s0 (map start ts))"
    by (simp add: events_inv_def init_sys_def done_events_start)
  from w l s e show ?thesis by (simp add: sys_inv_def)
qed

lemma exec_init_inv:
  assumes "1 \<le> ntask"
  shows "sys_inv J ds s0 (exec_init (length ds) s0 ntask)"
  unfolding exec_init_def
proof (rule init_inv, rule ballI)
  fix t assume "t \<in> set (work_ranges (length ds) (nat ntask))"
  with assms show "t_begin t \<le> t_end t \<and> t_end t \<le> length ds"
    by (intro work_ranges_ordered[of "nat ntask"]) simp_all
qed

subsection \<open>Progress\<close>

lemma sum_list_update_less:
  fixes f :: "'a \<Rightarrow> nat"
  assumes "t < length ws" "f w' < f (ws ! t)"
  shows "sum_list (map f (ws[t := w'])) < sum_list (map f ws)"
proof -
  have "f (ws ! t) \<le> sum_list (map f ws)"
    using assms(1) by (intro member_le_sum_list) simp_all
  moreover have "sum_list (map f (ws[t := w'])) = sum_list (map f ws) + f w' - f (ws ! t)"
    using assms(1) by (simp add: map_update sum_list_update)
  ultimately show ?thesis using assms(2) by linarith
qed

lemma remaining_update:
  assumes "t < length (workers st)" "workers st' = (workers st)[t := w']"
    "4 * (w_end w' - w_i w') - pc_rank (w_pc w') <
     4 * (w_end (workers st ! t) - w_i (workers st ! t)) - pc_rank (w_pc (workers st ! t))"
  shows "remaining st' < remaining st"
  unfolding remaining_def assms(2)
  by (rule sum_list_update_less[OF assms(1)]) (rule assms(3))

lemma rank_less: "i < e \<Longrightarrow> r < 3 \<Longrightarrow> 4 * (e - i) - Suc r < 4 * (e - i) - (r::nat)"
  by arith

lemma rank_wrap: "i < e \<Longrightarrow> 4 * (e - Suc i) - 0 < 4 * (e - i) - (3::nat)"
  by arith

lemma step_remaining:
  assumes "step J ds t st = Some st'" "wf_sys ds st"
  shows "remaining st' < remaining st"
  using assms(1)
proof (cases rule: step_cases)
  case crash
  with wf_sys_nth[OF assms(2) crash(1)] show ?thesis by (simp add: wf_worker_def)
next
  case acquire
  from wf_sys_nth[OF assms(2) acquire(1)] acquire(3)
  have lt: "w_i (workers st ! t) < w_end (workers st ! t)" by (simp add: wf_worker_def)
  show ?thesis
  proof (rule remaining_update[OF acquire(1), where w' = "(workers st ! t)\<lparr>w_pc := HasLock\<rparr>"])
    show "workers st' = (workers st)[t := (workers st ! t)\<lparr>w_pc := HasLock\<rparr>]"
      by (simp add: acquire(6))
    show "4 * (w_end ((workers st ! t)\<lparr>w_pc := HasLock\<rparr>) - w_i ((workers st ! t)\<lparr>w_pc := HasLock\<rparr>)) -
            pc_rank (w_pc ((workers st ! t)\<lparr>w_pc := HasLock\<rparr>))
          < 4 * (w_end (workers st ! t) - w_i (workers st ! t)) - pc_rank (w_pc (workers st ! t))"
      using rank_less[OF lt, of 0] by (simp add: acquire(2) pc_rank_def)
  qed
next
  case lookup
  let ?w' = "(workers st ! t)
                   \<lparr>w_pc := Loaded (case store st (cur_key J ds (workers st ! t)) of
                                     None \<Rightarrow> init_value J | Some x \<Rightarrow> x)\<rparr>"
  from wf_sys_nth[OF assms(2) lookup(1)] lookup(2)
  have lt: "w_i (workers st ! t) < w_end (workers st ! t)"
    by (simp add: wf_worker_def in_cs_def)
  show ?thesis
  proof (rule remaining_update[OF lookup(1), where w' = ?w'])
    show "workers st' = (workers st)[t := ?w']" by (simp add: lookup(3))
    show "4 * (w_end ?w' - w_i ?w') - pc_rank (w_pc ?w')
          < 4 * (w_end (workers st ! t) - w_i (workers st ! t)) - pc_rank (w_pc (workers st ! t))"
      using rank_less[OF lt, of 1] by (simp add: lookup(2) pc_rank_def numeral_2_eq_2)
  qed
next
  case (writeback x)
  let ?w' = "(workers st ! t)\<lparr>w_pc := Stored\<rparr>"
  from wf_sys_nth[OF assms(2) writeback(1)] writeback(2)
  have lt: "w_i (workers st ! t) < w_end (workers st ! t)"
    by (simp add: wf_worker_def in_cs_def)
  show ?thesis
  proof (rule remaining_update[OF writeback(1), where w' = ?w'])
    show "workers st' = (workers st)[t := ?w']" by (simp add: writeback(3))
    show "4 * (w_end ?w' - w_i ?w') - pc_rank (w_pc ?w')
          < 4 * (w_end (workers st ! t) - w_i (workers st ! t)) - pc_rank (w_pc (workers st ! t))"
      using rank_less[OF lt, of 2] by (simp add: writeback(2) pc_rank_def numeral_3_eq_3)
  qed
next
  case release
  let ?w' = "(workers st ! t)\<lparr>w_i := w_i (workers st ! t) + 1, w_pc := LoopHead\<rparr>"
  from wf_sys_nth[OF assms(2) release(1)] release(2)
  have lt: "w_i (workers st ! t) < w_end (workers st ! t)"
    by (simp add: wf_worker_def in_cs_def)
  show ?thesis
  proof (rule remaining_update[OF release(1), where w' = ?w'])
    show "workers st' = (workers st)[t := ?w']" by (simp add: release(3))
    show "4 * (w_end ?w' - w_i ?w') - pc_rank (w_pc ?w')
          < 4 * (w_end (workers st ! t) - w_i (workers st ! t)) - pc_rank (w_pc (workers st ! t))"
      using rank_wrap[OF lt] by (simp add: release(2) pc_rank_def)
  qed
qed

text \<open>No deadlock: while a worker is unfinished, some worker can move.\<close>

lemma progress:
  assumes "sys_inv J ds s0 st" "\<not> list_all finished (workers st)"
  shows "\<exists>t st'. step J ds t st = Some st'"
proof (cases "\<exists>u < length (workers st). in_cs (workers st ! u)")
  case True
  then obtain u where u: "u < length (workers st)" "in_cs (workers st ! u)" by blast
  then have "step J ds u st \<noteq> None"
    by (cases "w_pc (workers st ! u)")
       (simp_all add: step_def Let_def in_cs_def split: prod.splits)
  then show ?thesis by auto
next
  case False
  from assms(2) obtain t where t: "t < length (workers st)" "\<not> finished (workers st ! t)"
    by (auto simp: list_all_length)
  from assms(1) have wf: "wf_worker ds (workers st ! t)" and li: "lock_inv J ds st"
    using t(1) by (simp_all add: sys_inv_def wf_sys_nth)
  from False t(1) have ncs: "\<not> in_cs (workers st ! t)" by blast
  with wf have pc: "w_pc (workers st ! t) = LoopHead"
    by (cases "w_pc (workers st ! t)") (simp_all add: in_cs_def wf_worker_def)
  with t(2) have ne: "w_i (workers st ! t) \<noteq> w_end (workers st ! t)"
    by (simp add: finished_def)
  with wf have lt: "w_i (workers st ! t) < length ds" by (simp add: wf_worker_def)
  have "held st (cur_key J ds (workers st ! t)) = None"
  proof (cases "held st (cur_key J ds (workers st ! t))")
    case None
    then show ?thesis .
  next
    case (Some u)
    from lock_inv_held[OF li Some] False show ?thesis by blast
  qed
  with t(1) pc ne lt have "step J ds t st \<noteq> None"
    by (simp add: step_def Let_def store_lock_def cur_key_def)
  then show ?thesis by auto
qed

lemma can_finish:
  "sys_inv J ds s0 st \<Longrightarrow> \<exists>sched. list_all finished (workers (run_sched J ds sched st))"
proof (induction "remaining st" arbitrary: st rule: less_induct)
  case less
  show ?case
  proof (cases "list_all finished (workers st)")
    case True
    then have "list_all finished (workers (run_sched J ds [] st))" by simp
    then show ?thesis by blast
  next
    case False
    from progress[OF less.prems False] obtain t st' where s: "step J ds t st = Some st'"
      by blast
    from less.prems have "wf_sys ds st" by (simp add: sys_inv_def)
    from step_remaining[OF s this] step_inv[OF s less.prems]
    obtain sched where "list_all finished (workers (run_sched J ds sched st'))"
      using less.hyps by blast
    with s have "list_all finished (workers (run_sched J ds (t # sched) st))" by simp
    then show ?thesis by blast
  qed
qed

subsection \<open>\<open>exec\<close> as a run from the initial state\<close>

lemma wf_not_crashed: "wf_sys ds st \<Longrightarrow> \<not> list_ex (\<lambda>w. w_pc w = Crashed) (workers st)"
  by (auto simp: wf_sys_def list_all_iff list_ex_iff wf_worker_def)

lemma exec_logged_run:
  fixes J :: "('r, 'k, 'v) job_types"
  assumes "1 \<le> ntask" "ntask < 2 ^ 31" "length ds < 2 ^ 64"
  shows "exec_logged J ds s0 ntask sched =
           (if list_all finished (workers (run_sched J ds sched (exec_init (length ds) s0 ntask)))
            then Finished (run_sched J ds sched (exec_init (length ds) s0 ntask),
                   \<lparr>cells = map Some (work_ranges (length ds) (nat ntask)),
                    touched = [0..ntask - 2] @ [ntask - 1] @ [0..ntask - 1] @ [0..ntask - 1]\<rparr>)
            else Running (run_sched J ds sched (exec_init (length ds) s0 ntask),
                   \<lparr>cells = map Some (work_ranges (length ds) (nat ntask)),
                    touched = [0..ntask - 2] @ [ntask - 1] @ [0..ntask - 1] @ [0..ntask - 1]\<rparr>))"
proof -
  let ?ts = "work_ranges (length ds) (nat ntask)"
  let ?a1 = "\<lparr>cells = map Some ?ts, touched = [0..ntask - 2] @ [ntask - 1]\<rparr>"
  let ?a2 = "?a1\<lparr>touched := touched ?a1 @ [0..ntask - 1]\<rparr>"
  let ?a3 = "?a2\<lparr>touched := touched ?a2 @ [0..ntask - 1]\<rparr>"
  have len: "length ?ts = nat ntask" using assms by (simp add: length_work_ranges)
  have c: "exec_create (length ds) ntask = Inr ?a1" using assms by (rule exec_create_ok)
  have s: "start_loop [0..ntask - 1] ?a1 [] = Inr (map start ?ts :: 'v worker list, ?a2)"
    using assms(1) _ len by (rule exec_start_ok) simp
  have d: "delete_loop [0..ntask - 1] ?a2 = Inr ?a3"
    using assms(1) _ len by (rule exec_delete_ok) simp
  have "sys_inv J ds s0 (run_sched J ds sched (exec_init (length ds) s0 ntask))"
    using assms(1) by (intro run_sched_inv exec_init_inv)
  then have nc: "\<not> list_ex (\<lambda>w. w_pc w = Crashed)
                    (workers (run_sched J ds sched (exec_init (length ds) s0 ntask)))"
    by (intro wf_not_crashed[of ds]) (simp add: sys_inv_def)
  show ?thesis
    unfolding exec_logged_def c sum.case s prod.case Let_def d
    using nc by (simp add: exec_init_def)
qed

lemma exec_run:
  fixes J :: "('r, 'k, 'v) job_types"
  assumes "1 \<le> ntask" "ntask < 2 ^ 31" "length ds < 2 ^ 64"
  shows "exec J ds s0 ntask sched =
           (if list_all finished (workers (run_sched J ds sched (exec_init (length ds) s0 ntask)))
            then Finished (run_sched J ds sched (exec_init (length ds) s0 ntask))
            else Running (run_sched J ds sched (exec_init (length ds) s0 ntask)))"
  unfolding exec_def exec_logged_run[OF assms] by simp

lemma exec_finishedI:
  fixes J :: "('r, 'k, 'v) job_types"
  assumes "1 \<le> ntask" "ntask < 2 ^ 31" "length ds < 2 ^ 64" "length ds = n"
    and "run_sched J ds sched (exec_init n s0 ntask) = st"
    and "list_all finished (workers st)"
  shows "exec J ds s0 ntask sched = Finished st"
  using exec_run[OF assms(1,2,3), of J s0 sched] assms(4,5,6) by simp

lemma exec_runningI:
  fixes J :: "('r, 'k, 'v) job_types"
  assumes "1 \<le> ntask" "ntask < 2 ^ 31" "length ds < 2 ^ 64" "length ds = n"
    and "run_sched J ds sched (exec_init n s0 ntask) = st"
    and "\<not> list_all finished (workers st)"
  shows "exec J ds s0 ntask sched = Running st"
  using exec_run[OF assms(1,2,3), of J s0 sched] assms(4,5,6) by simp

section \<open>The state when every worker has returned\<close>

lemma finished_step: "list_all finished (workers st) \<Longrightarrow> step J ds t st = None"
  by (auto simp: step_def Let_def list_all_length finished_def)

lemma finished_run_sched:
  "list_all finished (workers st) \<Longrightarrow> run_sched J ds sched st = st"
  by (induction sched) (simp_all add: finished_step)

lemma finished_not_pending: "list_all finished (workers st) \<Longrightarrow> \<not> pending J ds st k"
  by (auto simp: pending_iff list_all_length finished_def is_loaded_def)

lemma finished_store:
  assumes "sys_inv J ds s0 st" "list_all finished (workers st)"
  shows "store st = fold (merge_into J) (merged (events st)) s0"
proof
  fix k
  from assms(1) have "store_inv J ds s0 st" by (simp add: sys_inv_def)
  from store_inv_idle[OF this finished_not_pending[OF assms(2)]]
  show "store st k = fold (merge_into J) (merged (events st)) s0 k"
    by (simp add: merged_store_def)
qed

lemma finished_events:
  assumes "sys_inv J ds s0 st" "list_all finished (workers st)" "t < length (workers st)"
  shows "filter (\<lambda>e. owner e = t) (events st) =
         concat (map (record_events J t)
                   (slice ds (w_begin (workers st ! t)) (w_end (workers st ! t))))"
proof -
  from assms(2,3) have f: "w_pc (workers st ! t) = LoopHead"
      "w_i (workers st ! t) = w_end (workers st ! t)"
    by (simp_all add: list_all_length finished_def)
  from assms(1,3) have "filter (\<lambda>e. owner e = t) (events st) = done_events J ds t (workers st ! t)"
    by (simp add: sys_inv_def events_inv_def)
  with f show ?thesis by (simp add: done_events_def pc_rank_def)
qed

lemma merged_record_events:
  "merged (concat (map (record_events J t) rs)) =
   map (\<lambda>r. (mapper_key J r, mapper_value J r)) rs"
  by (induction rs) (simp_all add: record_events_def)

subsection \<open>The merges of all workers together\<close>

lemma merged_Cons: "merged (e # es) = merged [e] @ merged es"
  by (cases e) simp_all

lemma merged_filter_Cons:
  "mset (merged (filter (\<lambda>x. owner x = t) (e # evs))) =
   (if t = owner e then mset (merged [e]) else {#}) +
   mset (merged (filter (\<lambda>x. owner x = t) evs))"
  by (cases e) auto

lemma sum_list_delta:
  fixes c :: "'a multiset"
  assumes "u < N"
  shows "(\<Sum>t\<leftarrow>[0..<N]. if t = u then c else {#}) = c"
proof -
  have "(\<Sum>t\<leftarrow>[0..<N]. if t = u then c else {#}) = (\<Sum>t\<in>{0..<N}. if t = u then c else {#})"
    by (simp add: interv_sum_list_conv_sum_set_nat)
  also have "\<dots> = c" using assms by (simp add: sum.delta)
  finally show ?thesis .
qed

lemma mset_merged_split:
  "\<forall>e \<in> set evs. owner e < N \<Longrightarrow>
   mset (merged evs) = (\<Sum>t\<leftarrow>[0..<N]. mset (merged (filter (\<lambda>e. owner e = t) evs)))"
proof (induction evs)
  case Nil
  show ?case by (simp add: sum_list_0)
next
  case (Cons e evs)
  then have u: "owner e < N" by simp
  have "(\<Sum>t\<leftarrow>[0..<N]. mset (merged (filter (\<lambda>x. owner x = t) (e # evs)))) =
        (\<Sum>t\<leftarrow>[0..<N]. (if t = owner e then mset (merged [e]) else {#}) +
                          mset (merged (filter (\<lambda>x. owner x = t) evs)))"
    by (intro arg_cong[of _ _ sum_list] map_cong refl) (rule merged_filter_Cons)
  also have "\<dots> = (\<Sum>t\<leftarrow>[0..<N]. if t = owner e then mset (merged [e]) else {#}) +
                   (\<Sum>t\<leftarrow>[0..<N]. mset (merged (filter (\<lambda>x. owner x = t) evs)))"
    by (rule sum_list_addf)
  also have "\<dots> = mset (merged [e]) + mset (merged evs)"
    using Cons by (simp add: sum_list_delta[OF u])
  also have "\<dots> = mset (merged (e # evs))" by (cases e) simp_all
  finally show ?case by simp
qed

lemma map_nth_upt: "map (\<lambda>t. f (ws ! t)) [0..<length ws] = map f ws"
proof -
  have "map (\<lambda>t. f (ws ! t)) [0..<length ws] = map f (map ((!) ws) [0..<length ws])"
    by (simp add: comp_def)
  then show ?thesis by (simp only: map_nth)
qed

lemma concat_slices_zip:
  "concat (map (\<lambda>w. slice ds (fb w) (fe w)) ws) =
   concat (map (\<lambda>(b, e). slice ds b e) (zip (map fb ws) (map fe ws)))"
  by (induction ws) simp_all

lemma concat_slices_work_ranges:
  assumes "0 < N"
  shows "concat (map (\<lambda>t. slice ds (t_begin t) (t_end t)) (work_ranges (length ds) N)) = ds"
proof -
  have "concat (map (\<lambda>t. slice ds (t_begin t) (t_end t)) (work_ranges (length ds) N)) =
        map ((!) ds) (concat (map (\<lambda>t. [t_begin t..<t_end t]) (work_ranges (length ds) N)))"
    by (simp add: slice_def map_concat comp_def)
  also have "\<dots> = map ((!) ds) [0..<length ds]"
    by (simp only: concat_work_ranges[OF assms])
  also have "\<dots> = ds" by (rule map_nth)
  finally show ?thesis .
qed

text \<open>
  The workers of a run from the initial state of \<open>exec\<close> have the ranges \<open>exec\<close> gave
  them.
\<close>

lemma run_workers_ranges:
  fixes J :: "('r, 'k, 'v) job_types"
  assumes "1 \<le> ntask"
  shows "length (workers (run_sched J ds sched (exec_init (length ds) s0 ntask))) = nat ntask"
    and "map w_begin (workers (run_sched J ds sched (exec_init (length ds) s0 ntask))) =
         map t_begin (work_ranges (length ds) (nat ntask))"
    and "map w_end (workers (run_sched J ds sched (exec_init (length ds) s0 ntask))) =
         map t_end (work_ranges (length ds) (nat ntask))"
proof -
  let ?st = "run_sched J ds sched (exec_init (length ds) s0 ntask)"
  have i: "workers (exec_init (length ds) s0 ntask :: ('k, 'v) sys) =
           map start (work_ranges (length ds) (nat ntask))"
    by (simp add: exec_init_def init_sys_def)
  show "length (workers ?st) = nat ntask"
    using assms(1) by (simp add: run_sched_length i length_work_ranges)
  show "map w_begin (workers ?st) = map t_begin (work_ranges (length ds) (nat ntask))"
    using run_sched_bounds[of J ds sched "exec_init (length ds) s0 ntask"]
    by (simp add: i start_def comp_def)
  show "map w_end (workers ?st) = map t_end (work_ranges (length ds) (nat ntask))"
    using run_sched_bounds[of J ds sched "exec_init (length ds) s0 ntask"]
    by (simp add: i start_def comp_def)
qed

lemma run_concat_slices:
  fixes J :: "('r, 'k, 'v) job_types"
  assumes "1 \<le> ntask"
  shows "concat (map (\<lambda>w. slice ds (w_begin w) (w_end w))
           (workers (run_sched J ds sched (exec_init (length ds) s0 ntask)))) = ds"
proof -
  let ?st = "run_sched J ds sched (exec_init (length ds) s0 ntask)"
  let ?ts = "work_ranges (length ds) (nat ntask)"
  have "concat (map (\<lambda>w. slice ds (w_begin w) (w_end w)) (workers ?st)) =
        concat (map (\<lambda>(b, e). slice ds b e) (zip (map w_begin (workers ?st)) (map w_end (workers ?st))))"
    by (rule concat_slices_zip)
  also have "\<dots> = concat (map (\<lambda>(b, e). slice ds b e) (zip (map t_begin ?ts) (map t_end ?ts)))"
    by (simp only: run_workers_ranges[OF assms])
  also have "\<dots> = concat (map (\<lambda>t. slice ds (t_begin t) (t_end t)) ?ts)"
    by (rule concat_slices_zip[symmetric])
  also have "\<dots> = ds" using assms by (intro concat_slices_work_ranges) simp
  finally show ?thesis .
qed

text \<open>
  When all workers have returned, the merges are the dataset's keys and values, each
  once, in some order.
\<close>

lemma finished_merged_mset:
  fixes J :: "('r, 'k, 'v) job_types"
  assumes "1 \<le> ntask"
    and fin: "list_all finished (workers (run_sched J ds sched (exec_init (length ds) s0 ntask)))"
  shows "mset (merged (events (run_sched J ds sched (exec_init (length ds) s0 ntask)))) =
         mset (map (\<lambda>r. (mapper_key J r, mapper_value J r)) ds)"
proof -
  let ?st = "run_sched J ds sched (exec_init (length ds) s0 ntask)"
  let ?kv = "\<lambda>r. (mapper_key J r, mapper_value J r)"
  let ?N = "length (workers ?st)"
  have inv: "sys_inv J ds s0 ?st" using assms(1) by (intro run_sched_inv exec_init_inv)
  then have ow: "\<forall>e \<in> set (events ?st). owner e < ?N"
    by (simp add: sys_inv_def events_inv_def)
  have "mset (merged (events ?st)) =
        (\<Sum>t\<leftarrow>[0..<?N]. mset (merged (filter (\<lambda>e. owner e = t) (events ?st))))"
    by (rule mset_merged_split[OF ow])
  also have "\<dots> = (\<Sum>t\<leftarrow>[0..<?N]. mset (map ?kv
                       (slice ds (w_begin (workers ?st ! t)) (w_end (workers ?st ! t)))))"
    by (intro arg_cong[of _ _ sum_list] map_cong refl)
       (simp add: finished_events[OF inv fin] merged_record_events)
  also have "\<dots> = (\<Sum>w\<leftarrow>workers ?st. mset (map ?kv (slice ds (w_begin w) (w_end w))))"
    by (simp only: map_nth_upt[of "\<lambda>w. mset (map ?kv (slice ds (w_begin w) (w_end w)))"])
  also have "\<dots> = mset (map ?kv (concat (map (\<lambda>w. slice ds (w_begin w) (w_end w)) (workers ?st))))"
    by (simp add: map_concat mset_concat comp_def)
  also have "\<dots> = mset (map ?kv ds)" by (simp only: run_concat_slices[OF assms(1)])
  finally show ?thesis .
qed

subsection \<open>Merges that commute\<close>

lemma merge_into_commute:
  assumes comm: "\<forall>a b. reduce J a b = reduce J b a"
    and assoc: "\<forall>a b c. reduce J (reduce J a b) c = reduce J a (reduce J b c)"
  shows "merge_into J p \<circ> merge_into J q = merge_into J q \<circ> merge_into J p"
proof (rule ext)
  fix s
  have sw: "reduce J (reduce J x a) b = reduce J (reduce J x b) a" for x a b
  proof -
    have "reduce J (reduce J x a) b = reduce J x (reduce J a b)" using assoc by simp
    also have "\<dots> = reduce J x (reduce J b a)" using comm by simp
    also have "\<dots> = reduce J (reduce J x b) a" using assoc by simp
    finally show ?thesis .
  qed
  show "(merge_into J p \<circ> merge_into J q) s = (merge_into J q \<circ> merge_into J p) s"
  proof (cases "fst p = fst q")
    case True
    then show ?thesis by (simp add: merge_into_def sw)
  next
    case False
    then show ?thesis by (auto simp: merge_into_def fun_upd_twist)
  qed
qed

lemma fold_merge_into_mset:
  assumes "\<forall>a b. reduce J a b = reduce J b a"
    and "\<forall>a b c. reduce J (reduce J a b) c = reduce J a (reduce J b c)"
    and "mset xs = mset ys"
  shows "fold (merge_into J) xs = fold (merge_into J) ys"
  by (rule fold_multiset_equiv[OF merge_into_commute[OF assms(1,2)] assms(3)])

lemma sequential_fold_merge_into:
  "sequential_fold J ds s0 =
   fold (merge_into J) (map (\<lambda>r. (mapper_key J r, mapper_value J r)) ds) s0"
proof -
  have "map_combine J = merge_into J \<circ> (\<lambda>r. (mapper_key J r, mapper_value J r))"
    by (intro ext) (simp add: map_combine_def merge_into_def)
  then show ?thesis by (simp add: sequential_fold_def fold_map)
qed

text \<open>
  With a commutative and associative \<^verbatim>\<open>+=\<close>, every finished run leaves the store of the
  sequential fold.
\<close>

lemma finished_store_commutative:
  fixes J :: "('r, 'k, 'v) job_types"
  assumes "\<forall>a b. reduce J a b = reduce J b a"
    and "\<forall>a b c. reduce J (reduce J a b) c = reduce J a (reduce J b c)"
    and "1 \<le> ntask" "ntask < 2 ^ 31" "length ds < 2 ^ 64"
    and "exec J ds s0 ntask sched = Finished st"
  shows "store st = sequential_fold J ds s0"
proof -
  let ?st = "run_sched J ds sched (exec_init (length ds) s0 ntask)"
  from assms(6) exec_run[OF assms(3,4,5), of J s0 sched]
  have st: "st = ?st" and fin: "list_all finished (workers ?st)"
    by (auto split: if_splits)
  have inv: "sys_inv J ds s0 ?st" using assms(3) by (intro run_sched_inv exec_init_inv)
  have "store ?st = fold (merge_into J) (merged (events ?st)) s0"
    by (rule finished_store[OF inv fin])
  also have "\<dots> = fold (merge_into J) (map (\<lambda>r. (mapper_key J r, mapper_value J r)) ds) s0"
    using fold_merge_into_mset[OF assms(1,2) finished_merged_mset[OF assms(3) fin]] by simp
  also have "\<dots> = sequential_fold J ds s0" by (rule sequential_fold_merge_into[symmetric])
  finally show ?thesis by (simp add: st)
qed

lemma exec_can_finish:
  fixes J :: "('r, 'k, 'v) job_types"
  assumes "1 \<le> ntask" "ntask < 2 ^ 31" "length ds < 2 ^ 64"
  shows "\<exists>sched st. exec J ds s0 ntask sched = Finished st"
proof -
  have "sys_inv J ds s0 (exec_init (length ds) s0 ntask)" using assms(1) by (rule exec_init_inv)
  from can_finish[OF this] obtain sched where
    "list_all finished (workers (run_sched J ds sched (exec_init (length ds) s0 ntask)))" by blast
  with exec_run[OF assms, of J s0 sched] show ?thesis by auto
qed

section \<open>The empty dataset\<close>

lemma exec_init_empty_finished:
  assumes "1 \<le> ntask"
  shows "list_all (\<lambda>w. w_begin w = w_end w \<and> finished w)
           (workers (exec_init 0 s0 ntask :: ('k, 'v) sys))"
proof -
  have "t_begin t = t_end t" if "t \<in> set (work_ranges 0 (nat ntask))" for t
    using work_ranges_ordered[of "nat ntask" t 0] that assms by simp
  then show ?thesis
    by (auto simp: exec_init_def init_sys_def list_all_iff start_def finished_def)
qed

text \<open>
  Claim C6.  On a dataset without records, with any worker count \<open>ntask \<ge> 1\<close> and under
  any schedule, \<^verbatim>\<open>exec\<close> finishes without error: every worker's range is empty, no
  worker takes a step (there is no lock, lookup or merge event), no lock is held, and
  the store is the caller's store, with no entry added.
\<close>

theorem exec_empty_dataset:
  fixes J :: "('r, 'k, 'v) job_types"
  assumes "1 \<le> ntask" "ntask < 2 ^ 31"
  shows "\<exists>st. exec J [] s0 ntask sched = Finished st \<and> store st = s0 \<and> events st = [] \<and>
              held st = Map.empty \<and> length (workers st) = nat ntask \<and>
              list_all (\<lambda>w. w_begin w = w_end w) (workers st)"
proof -
  let ?i = "exec_init 0 s0 ntask :: ('k, 'v) sys"
  have f: "list_all (\<lambda>w. w_begin w = w_end w \<and> finished w) (workers ?i)"
    using assms(1) by (rule exec_init_empty_finished)
  then have fin: "list_all finished (workers ?i)" and emp: "list_all (\<lambda>w. w_begin w = w_end w) (workers ?i)"
    by (simp_all add: list_all_iff)
  have r: "run_sched J [] sched ?i = ?i" by (rule finished_run_sched[OF fin])
  have "exec J [] s0 ntask sched = Finished ?i"
    using exec_run[OF assms, of "[]" J s0 sched] fin by (simp add: r)
  moreover have "store ?i = s0" "events ?i = []" "held ?i = Map.empty"
    by (simp_all add: exec_init_def init_sys_def)
  moreover have "length (workers ?i) = nat ntask"
    using assms(1) by (simp add: exec_init_def init_sys_def length_work_ranges)
  ultimately show ?thesis using emp by blast
qed

text \<open>The theorem at three workers, with a schedule that names each of them.\<close>

theorem exec_empty_dataset_witness:
  "\<exists>st. exec sum_by_parity [] Map.empty 3 [0, 1, 2, 0] = Finished st \<and> store st = Map.empty \<and>
        events st = [] \<and> held st = Map.empty \<and> length (workers st) = 3 \<and>
        list_all (\<lambda>w. w_begin w = w_end w) (workers st)"
  using exec_empty_dataset[of 3 sum_by_parity Map.empty "[0, 1, 2, 0]"] by simp

section \<open>A single worker\<close>

text \<open>
  Claim C2.  With one worker, \<^verbatim>\<open>exec\<close> has a finished run, and every finished run leaves
  the store of the sequential fold of the dataset, for every key: the one worker has the
  range \<open>[0, length ds)\<close>, and the events are those of the records of the dataset, in
  dataset order.
\<close>

theorem single_worker_sequential_fold:
  fixes J :: "('r, 'k, 'v) job_types"
  assumes "length ds < 2 ^ 64"
  shows "(\<exists>sched st. exec J ds s0 1 sched = Finished st) \<and>
         (\<forall>sched st. exec J ds s0 1 sched = Finished st \<longrightarrow>
            store st = sequential_fold J ds s0 \<and>
            map w_begin (workers st) = [0] \<and> map w_end (workers st) = [length ds] \<and>
            events st = concat (map (record_events J 0) ds))"
proof (rule conjI)
  show "\<exists>sched st. exec J ds s0 1 sched = Finished st"
    using assms by (intro exec_can_finish) simp_all
next
  show "\<forall>sched st. exec J ds s0 1 sched = Finished st \<longrightarrow>
            store st = sequential_fold J ds s0 \<and>
            map w_begin (workers st) = [0] \<and> map w_end (workers st) = [length ds] \<and>
            events st = concat (map (record_events J 0) ds)"
  proof (intro allI impI)
  fix sched st assume ex: "exec J ds s0 1 sched = Finished st"
  let ?st = "run_sched J ds sched (exec_init (length ds) s0 1)"
  have one: "(1::int) \<le> 1" "(1::int) < 2 ^ 31" by simp_all
  from ex exec_run[OF one assms, of J s0 sched]
  have st: "st = ?st" and fin: "list_all finished (workers ?st)"
    by (auto split: if_splits)
  have inv: "sys_inv J ds s0 ?st" by (intro run_sched_inv exec_init_inv) simp
  have wr: "work_ranges (length ds) (Suc 0) = [new_task 0 (length ds)]"
    by (simp add: work_ranges_def)
  have len: "length (workers ?st) = 1"
    using run_workers_ranges(1)[OF one(1), of J ds sched s0] by simp
  have wb: "map w_begin (workers ?st) = [0]"
    using run_workers_ranges(2)[OF one(1), of J ds sched s0] by (simp add: wr new_task_def)
  have we: "map w_end (workers ?st) = [length ds]"
    using run_workers_ranges(3)[OF one(1), of J ds sched s0] by (simp add: wr new_task_def)
  from wb we len have b0: "w_begin (workers ?st ! 0) = 0" "w_end (workers ?st ! 0) = length ds"
    by (cases "workers ?st"; simp)+
  from inv len have "\<forall>e \<in> set (events ?st). owner e = 0"
    by (simp add: sys_inv_def events_inv_def)
  then have "filter (\<lambda>e. owner e = 0) (events ?st) = events ?st" by simp
  with finished_events[OF inv fin, of 0] len
  have "events ?st = concat (map (record_events J 0) (slice ds 0 (length ds)))"
    by (simp add: b0)
  also have "slice ds 0 (length ds) = ds" by (simp add: slice_def map_nth)
  finally have ev: "events ?st = concat (map (record_events J 0) ds)" .
  have "store ?st = fold (merge_into J) (merged (events ?st)) s0"
    by (rule finished_store[OF inv fin])
  also have "\<dots> = sequential_fold J ds s0"
    by (simp add: ev merged_record_events sequential_fold_merge_into)
  finally have "store ?st = sequential_fold J ds s0" .
  with wb we ev show "store st = sequential_fold J ds s0 \<and>
            map w_begin (workers st) = [0] \<and> map w_end (workers st) = [length ds] \<and>
            events st = concat (map (record_events J 0) ds)"
    by (simp add: st)
  qed
qed

text \<open>
  The theorem on the dataset 1, 2, 3 with the job that sums by parity: twelve steps of
  worker 0.
\<close>

lemma run_sum_single:
  "run_sched sum_by_parity [1, 2, 3] [0, 0, 0, 0, 0, 0, 0, 0, 0, 0, 0, 0]
     (exec_init 3 Map.empty 1) =
   \<lparr>store = [1 \<mapsto> 4, 0 \<mapsto> 2], held = Map.empty,
    workers = [\<lparr>w_begin = 0, w_end = 3, w_i = 3, w_pc = LoopHead\<rparr>],
    events = [Acquire 0 1, Lookup 0 1, Merge 0 1 1, Release 0 1,
              Acquire 0 0, Lookup 0 0, Merge 0 0 2, Release 0 0,
              Acquire 0 1, Lookup 0 1, Merge 0 1 3, Release 0 1]\<rparr>"
  by (simp add: exec_init_def init_sys_def work_ranges_def new_task_def start_def
      sum_by_parity_def step_def store_lock_def store_index_def store_unlock_def fun_upd_twist)

theorem single_worker_sequential_fold_witness:
  "\<exists>st. exec sum_by_parity [1, 2, 3] Map.empty 1 [0, 0, 0, 0, 0, 0, 0, 0, 0, 0, 0, 0] =
           Finished st \<and>
        store st = sequential_fold sum_by_parity [1, 2, 3] Map.empty \<and>
        store st = [1 \<mapsto> 4, 0 \<mapsto> 2] \<and>
        map w_begin (workers st) = [0] \<and> map w_end (workers st) = [3]"
proof -
  let ?st = "\<lparr>store = [1 \<mapsto> 4, 0 \<mapsto> 2 :: nat], held = (Map.empty :: nat \<rightharpoonup> nat),
    workers = [\<lparr>w_begin = 0, w_end = 3, w_i = 3, w_pc = (LoopHead :: nat pc)\<rparr>],
    events = [Acquire 0 1, Lookup 0 1, Merge 0 1 1, Release 0 1,
              Acquire 0 0, Lookup 0 0, Merge 0 0 2, Release 0 0,
              Acquire 0 1, Lookup 0 1, Merge 0 1 3, Release 0 1]\<rparr>"
  have e: "exec sum_by_parity [1, 2, 3] Map.empty 1 [0, 0, 0, 0, 0, 0, 0, 0, 0, 0, 0, 0] =
           Finished ?st"
  proof (rule exec_finishedI[where n = 3])
    show "run_sched sum_by_parity [1, 2, 3] [0, 0, 0, 0, 0, 0, 0, 0, 0, 0, 0, 0]
            (exec_init 3 Map.empty 1) = ?st"
      by (rule run_sum_single)
  qed (simp_all add: finished_def)
  have "length [1, 2, 3 :: nat] < 2 ^ 64" by simp
  from single_worker_sequential_fold[OF this, of sum_by_parity Map.empty] e
  have "store ?st = sequential_fold sum_by_parity [1, 2, 3] Map.empty" by blast
  with e show ?thesis by simp
qed

section \<open>Independence of the worker count\<close>

lemma exec_state:
  fixes J :: "('r, 'k, 'v) job_types"
  assumes "1 \<le> ntask" "ntask < 2 ^ 31" "length ds < 2 ^ 64"
    and "exec J ds s0 ntask sched = Running st \<or> exec J ds s0 ntask sched = Finished st"
  shows "st = run_sched J ds sched (exec_init (length ds) s0 ntask)"
    and "sys_inv J ds s0 st"
proof -
  from assms(4) exec_run[OF assms(1,2,3), of J s0 sched]
  show st: "st = run_sched J ds sched (exec_init (length ds) s0 ntask)"
    by (auto split: if_splits)
  show "sys_inv J ds s0 st"
    unfolding st using assms(1) by (intro run_sched_inv exec_init_inv)
qed

text \<open>
  Claim C4.  If \<^verbatim>\<open>+=\<close> is commutative and associative, then for every dataset and every
  two worker counts \<open>n1, n2 \<ge> 1\<close> the stores of any two finished runs are equal, key by
  key (both are the store of the sequential fold); and finished runs exist.  With
  \<open>n1 = n2\<close> this is independence of the schedule.
\<close>

theorem result_independent_of_worker_count:
  fixes J :: "('r, 'k, 'v) job_types"
  assumes "\<forall>a b. reduce J a b = reduce J b a"
    and "\<forall>a b c. reduce J (reduce J a b) c = reduce J a (reduce J b c)"
    and "length ds < 2 ^ 64" "1 \<le> n1" "n1 < 2 ^ 31" "1 \<le> n2" "n2 < 2 ^ 31"
  shows "(\<exists>sched st. exec J ds s0 n1 sched = Finished st) \<and>
         (\<exists>sched st. exec J ds s0 n2 sched = Finished st) \<and>
         (\<forall>sched1 sched2 st1 st2.
            exec J ds s0 n1 sched1 = Finished st1 \<and> exec J ds s0 n2 sched2 = Finished st2 \<longrightarrow>
            store st1 = store st2 \<and> store st1 = sequential_fold J ds s0)"
proof (intro conjI)
  show "\<exists>sched st. exec J ds s0 n1 sched = Finished st"
    using assms(4,5,3) by (rule exec_can_finish)
  show "\<exists>sched st. exec J ds s0 n2 sched = Finished st"
    using assms(6,7,3) by (rule exec_can_finish)
  show "\<forall>sched1 sched2 st1 st2.
            exec J ds s0 n1 sched1 = Finished st1 \<and> exec J ds s0 n2 sched2 = Finished st2 \<longrightarrow>
            store st1 = store st2 \<and> store st1 = sequential_fold J ds s0"
  proof (intro allI impI)
    fix sched1 sched2 st1 st2
    assume e: "exec J ds s0 n1 sched1 = Finished st1 \<and> exec J ds s0 n2 sched2 = Finished st2"
    then have "store st1 = sequential_fold J ds s0"
      using finished_store_commutative[OF assms(1,2,4,5,3)] by blast
    moreover from e have "store st2 = sequential_fold J ds s0"
      using finished_store_commutative[OF assms(1,2,6,7,3)] by blast
    ultimately show "store st1 = store st2 \<and> store st1 = sequential_fold J ds s0" by simp
  qed
qed

text \<open>
  The theorem on the dataset 1, 3, 2 with the job that sums by parity: one worker, and
  two workers under a schedule in which worker 1 waits for the lock of key 1.
\<close>

lemma run_sum_one:
  "run_sched sum_by_parity [1, 3, 2] [0, 0, 0, 0, 0, 0, 0, 0, 0, 0, 0, 0]
     (exec_init 3 Map.empty 1) =
   \<lparr>store = [1 \<mapsto> 4, 0 \<mapsto> 2], held = Map.empty,
    workers = [\<lparr>w_begin = 0, w_end = 3, w_i = 3, w_pc = LoopHead\<rparr>],
    events = [Acquire 0 1, Lookup 0 1, Merge 0 1 1, Release 0 1,
              Acquire 0 1, Lookup 0 1, Merge 0 1 3, Release 0 1,
              Acquire 0 0, Lookup 0 0, Merge 0 0 2, Release 0 0]\<rparr>"
  by (simp add: exec_init_def init_sys_def work_ranges_def new_task_def start_def
      sum_by_parity_def step_def store_lock_def store_index_def store_unlock_def fun_upd_twist)

lemma run_sum_two:
  "run_sched sum_by_parity [1, 3, 2] [0, 1, 0, 1, 0, 0, 1, 1, 1, 1, 1, 1, 1, 1]
     (exec_init 3 Map.empty 2) =
   \<lparr>store = [1 \<mapsto> 4, 0 \<mapsto> 2], held = Map.empty,
    workers = [\<lparr>w_begin = 0, w_end = 1, w_i = 1, w_pc = LoopHead\<rparr>,
               \<lparr>w_begin = 1, w_end = 3, w_i = 3, w_pc = LoopHead\<rparr>],
    events = [Acquire 0 1, Lookup 0 1, Merge 0 1 1, Release 0 1,
              Acquire 1 1, Lookup 1 1, Merge 1 1 3, Release 1 1,
              Acquire 1 0, Lookup 1 0, Merge 1 0 2, Release 1 0]\<rparr>"
  by (simp add: exec_init_def init_sys_def work_ranges_def new_task_def start_def
      sum_by_parity_def step_def store_lock_def store_index_def store_unlock_def fun_upd_twist)

theorem result_independent_of_worker_count_witness:
  "\<exists>st1 st2.
     exec sum_by_parity [1, 3, 2] Map.empty 1 [0, 0, 0, 0, 0, 0, 0, 0, 0, 0, 0, 0] = Finished st1 \<and>
     exec sum_by_parity [1, 3, 2] Map.empty 2 [0, 1, 0, 1, 0, 0, 1, 1, 1, 1, 1, 1, 1, 1] =
       Finished st2 \<and>
     store st1 = store st2 \<and> store st1 = sequential_fold sum_by_parity [1, 3, 2] Map.empty \<and>
     store st2 = [1 \<mapsto> 4, 0 \<mapsto> 2]"
proof -
  let ?st1 = "\<lparr>store = [1 \<mapsto> 4, 0 \<mapsto> 2 :: nat], held = (Map.empty :: nat \<rightharpoonup> nat),
    workers = [\<lparr>w_begin = 0, w_end = 3, w_i = 3, w_pc = (LoopHead :: nat pc)\<rparr>],
    events = [Acquire 0 1, Lookup 0 1, Merge 0 1 1, Release 0 1,
              Acquire 0 1, Lookup 0 1, Merge 0 1 3, Release 0 1,
              Acquire 0 0, Lookup 0 0, Merge 0 0 2, Release 0 0]\<rparr>"
  let ?st2 = "\<lparr>store = [1 \<mapsto> 4, 0 \<mapsto> 2 :: nat], held = (Map.empty :: nat \<rightharpoonup> nat),
    workers = [\<lparr>w_begin = 0, w_end = 1, w_i = 1, w_pc = (LoopHead :: nat pc)\<rparr>,
               \<lparr>w_begin = 1, w_end = 3, w_i = 3, w_pc = LoopHead\<rparr>],
    events = [Acquire 0 1, Lookup 0 1, Merge 0 1 1, Release 0 1,
              Acquire 1 1, Lookup 1 1, Merge 1 1 3, Release 1 1,
              Acquire 1 0, Lookup 1 0, Merge 1 0 2, Release 1 0]\<rparr>"
  have e1: "exec sum_by_parity [1, 3, 2] Map.empty 1 [0, 0, 0, 0, 0, 0, 0, 0, 0, 0, 0, 0] =
            Finished ?st1"
  proof (rule exec_finishedI[where n = 3])
    show "run_sched sum_by_parity [1, 3, 2] [0, 0, 0, 0, 0, 0, 0, 0, 0, 0, 0, 0]
            (exec_init 3 Map.empty 1) = ?st1"
      by (rule run_sum_one)
  qed (simp_all add: finished_def)
  have e2: "exec sum_by_parity [1, 3, 2] Map.empty 2 [0, 1, 0, 1, 0, 0, 1, 1, 1, 1, 1, 1, 1, 1] =
            Finished ?st2"
  proof (rule exec_finishedI[where n = 3])
    show "run_sched sum_by_parity [1, 3, 2] [0, 1, 0, 1, 0, 0, 1, 1, 1, 1, 1, 1, 1, 1]
            (exec_init 3 Map.empty 2) = ?st2"
      by (rule run_sum_two)
  qed (simp_all add: finished_def)
  have c: "\<forall>a b. reduce sum_by_parity a b = reduce sum_by_parity b a"
    and a: "\<forall>a b c. reduce sum_by_parity (reduce sum_by_parity a b) c =
                     reduce sum_by_parity a (reduce sum_by_parity b c)"
    by (simp_all add: sum_by_parity_def)
  have v: "length [1, 3, 2 :: nat] < 2 ^ 64" "(1::int) \<le> 1" "(1::int) < 2 ^ 31"
    "(1::int) \<le> 2" "(2::int) < 2 ^ 31" by simp_all
  have "store ?st1 = store ?st2 \<and>
        store ?st1 = sequential_fold sum_by_parity [1, 3, 2] Map.empty"
    by (rule result_independent_of_worker_count[OF c a v, of Map.empty,
          THEN conjunct2, THEN conjunct2, rule_format, OF conjI[OF e1 e2]])
  with e1 e2 show ?thesis by (intro exI[of _ ?st1] exI[of _ ?st2]) simp
qed

section \<open>Mutual exclusion and counting\<close>

lemma fold_count:
  fixes J :: "('r, 'k, nat) job_types"
  assumes "mapper_value J = (\<lambda>r. 1)" "reduce J = (+)" "init_value J = 0"
  shows "fold (map_combine J) ds s k =
           (if k \<in> mapper_key J ` set ds
            then Some ((case s k of None \<Rightarrow> 0 | Some c \<Rightarrow> c) +
                       length (filter (\<lambda>r. mapper_key J r = k) ds))
            else s k)"
proof (induction ds arbitrary: s k)
  case Nil
  show ?case by simp
next
  case (Cons r ds)
  have m: "map_combine J r s =
           s(mapper_key J r \<mapsto> (case s (mapper_key J r) of None \<Rightarrow> 0 | Some c \<Rightarrow> c) + 1)"
    by (simp add: map_combine_def assms cong: option.case_cong)
  show ?case
  proof (cases "k = mapper_key J r")
    case True
    have "filter (\<lambda>x. mapper_key J x = mapper_key J r) ds = []"
      if "mapper_key J r \<notin> mapper_key J ` set ds"
    proof -
      have "mapper_key J x \<noteq> mapper_key J r" if "x \<in> set ds" for x
        using that \<open>mapper_key J r \<notin> mapper_key J ` set ds\<close> by (metis imageI)
      then show ?thesis by (simp add: filter_empty_conv)
    qed
    with True show ?thesis by (simp add: Cons.IH m)
  next
    case False
    then show ?thesis by (auto simp: Cons.IH m)
  qed
qed

text \<open>
  Claim C8.  In every state a run of \<^verbatim>\<open>exec\<close> reaches, two different workers are never
  both between \<^verbatim>\<open>lock\<close> and \<^verbatim>\<open>unlock\<close> for the same key: the read and the write of
  \<^verbatim>\<open>+=\<close> on an entry are not interleaved with another worker's.  With a counting
  combine (every value is 1, \<^verbatim>\<open>+=\<close> is addition, the default is 0) on an empty store,
  every finished run leaves, for each key, the number of records with that key, and no
  entry for other keys; this holds for every worker count \<open>ntask \<ge> 1\<close>, and finished
  runs exist.
\<close>

theorem counting_no_lost_updates:
  fixes J :: "('r, 'k, nat) job_types"
  assumes "mapper_value J = (\<lambda>r. 1)" "reduce J = (+)" "init_value J = 0"
    and "1 \<le> ntask" "ntask < 2 ^ 31" "length ds < 2 ^ 64"
  shows "(\<exists>sched st. exec J ds Map.empty ntask sched = Finished st) \<and>
         (\<forall>sched st. exec J ds Map.empty ntask sched = Finished st \<longrightarrow>
            (\<forall>k. store st k =
               (if k \<in> mapper_key J ` set ds
                then Some (length (filter (\<lambda>r. mapper_key J r = k) ds))
                else None))) \<and>
         (\<forall>sched st t u.
            (exec J ds Map.empty ntask sched = Running st \<or>
             exec J ds Map.empty ntask sched = Finished st) \<and>
            t < length (workers st) \<and> u < length (workers st) \<and>
            in_cs (workers st ! t) \<and> in_cs (workers st ! u) \<and>
            cur_key J ds (workers st ! t) = cur_key J ds (workers st ! u) \<longrightarrow>
            t = u)"
proof (intro conjI)
  show "\<exists>sched st. exec J ds Map.empty ntask sched = Finished st"
    using assms(4,5,6) by (rule exec_can_finish)
  show "\<forall>sched st. exec J ds Map.empty ntask sched = Finished st \<longrightarrow>
            (\<forall>k. store st k =
               (if k \<in> mapper_key J ` set ds
                then Some (length (filter (\<lambda>r. mapper_key J r = k) ds))
                else None))"
  proof (intro allI impI)
    fix sched st k
    assume e: "exec J ds Map.empty ntask sched = Finished st"
    have c: "\<forall>a b. reduce J a b = reduce J b a"
      and a: "\<forall>a b c. reduce J (reduce J a b) c = reduce J a (reduce J b c)"
      by (simp_all add: assms(2))
    have "store st = sequential_fold J ds Map.empty"
      by (rule finished_store_commutative[OF c a assms(4,5,6) e])
    then show "store st k =
               (if k \<in> mapper_key J ` set ds
                then Some (length (filter (\<lambda>r. mapper_key J r = k) ds))
                else None)"
      by (simp add: sequential_fold_def fold_count[OF assms(1,2,3)])
  qed
  show "\<forall>sched st t u.
            (exec J ds Map.empty ntask sched = Running st \<or>
             exec J ds Map.empty ntask sched = Finished st) \<and>
            t < length (workers st) \<and> u < length (workers st) \<and>
            in_cs (workers st ! t) \<and> in_cs (workers st ! u) \<and>
            cur_key J ds (workers st ! t) = cur_key J ds (workers st ! u) \<longrightarrow>
            t = u"
  proof (intro allI impI)
    fix sched st t u
    assume h: "(exec J ds Map.empty ntask sched = Running st \<or>
             exec J ds Map.empty ntask sched = Finished st) \<and>
            t < length (workers st) \<and> u < length (workers st) \<and>
            in_cs (workers st ! t) \<and> in_cs (workers st ! u) \<and>
            cur_key J ds (workers st ! t) = cur_key J ds (workers st ! u)"
    then have "sys_inv J ds Map.empty st"
      using exec_state(2)[OF assms(4,5,6)] by blast
    then have "lock_inv J ds st" by (simp add: sys_inv_def)
    with h show "t = u" by (intro lock_inv_mutex[of J ds st t u]) simp_all
  qed
qed

text \<open>
  The theorem on the dataset 1, 3, 2 with the job that counts by parity and two workers,
  under the schedule in which worker 1 waits for the lock of key 1.
\<close>

lemma run_count_two:
  "run_sched count_by_parity [1, 3, 2] [0, 1, 0, 1, 0, 0, 1, 1, 1, 1, 1, 1, 1, 1]
     (exec_init 3 Map.empty 2) =
   \<lparr>store = [1 \<mapsto> 2, 0 \<mapsto> 1], held = Map.empty,
    workers = [\<lparr>w_begin = 0, w_end = 1, w_i = 1, w_pc = LoopHead\<rparr>,
               \<lparr>w_begin = 1, w_end = 3, w_i = 3, w_pc = LoopHead\<rparr>],
    events = [Acquire 0 1, Lookup 0 1, Merge 0 1 1, Release 0 1,
              Acquire 1 1, Lookup 1 1, Merge 1 1 1, Release 1 1,
              Acquire 1 0, Lookup 1 0, Merge 1 0 1, Release 1 0]\<rparr>"
  by (simp add: exec_init_def init_sys_def work_ranges_def new_task_def start_def
      count_by_parity_def step_def store_lock_def store_index_def store_unlock_def fun_upd_twist
      numeral_2_eq_2[symmetric])

theorem counting_no_lost_updates_witness:
  "\<exists>st. exec count_by_parity [1, 3, 2] Map.empty 2 [0, 1, 0, 1, 0, 0, 1, 1, 1, 1, 1, 1, 1, 1] =
          Finished st \<and>
        store st 1 = Some 2 \<and> store st 0 = Some 1 \<and> store st 2 = None \<and>
        store st = [1 \<mapsto> 2, 0 \<mapsto> 1]"
proof -
  let ?st = "\<lparr>store = [1 \<mapsto> 2, 0 \<mapsto> 1 :: nat], held = (Map.empty :: nat \<rightharpoonup> nat),
    workers = [\<lparr>w_begin = 0, w_end = 1, w_i = 1, w_pc = (LoopHead :: nat pc)\<rparr>,
               \<lparr>w_begin = 1, w_end = 3, w_i = 3, w_pc = LoopHead\<rparr>],
    events = [Acquire 0 1, Lookup 0 1, Merge 0 1 1, Release 0 1,
              Acquire 1 1, Lookup 1 1, Merge 1 1 1, Release 1 1,
              Acquire 1 0, Lookup 1 0, Merge 1 0 1, Release 1 0]\<rparr>"
  have e: "exec count_by_parity [1, 3, 2] Map.empty 2
             [0, 1, 0, 1, 0, 0, 1, 1, 1, 1, 1, 1, 1, 1] = Finished ?st"
  proof (rule exec_finishedI[where n = 3])
    show "run_sched count_by_parity [1, 3, 2] [0, 1, 0, 1, 0, 0, 1, 1, 1, 1, 1, 1, 1, 1]
            (exec_init 3 Map.empty 2) = ?st"
      by (rule run_count_two)
  qed (simp_all add: finished_def)
  have j: "mapper_value count_by_parity = (\<lambda>r. 1)" "reduce count_by_parity = (+)"
    "init_value count_by_parity = 0"
    by (simp_all add: count_by_parity_def)
  have v: "(1::int) \<le> 2" "(2::int) < 2 ^ 31" "length [1, 3, 2 :: nat] < 2 ^ 64" by simp_all
  have k: "store ?st k =
               (if k \<in> mapper_key count_by_parity ` set [1, 3, 2]
                then Some (length (filter (\<lambda>r. mapper_key count_by_parity r = k) [1, 3, 2]))
                else None)" for k
    by (rule counting_no_lost_updates[OF j v, THEN conjunct2, THEN conjunct1, rule_format, OF e])
  have "store ?st 1 = Some 2" "store ?st 0 = Some 1" "store ?st 2 = None"
    using k[of 1] k[of 0] k[of 2]
    by (simp_all add: count_by_parity_def)
  with e show ?thesis by (intro exI[of _ ?st]) simp
qed

section \<open>What one worker does\<close>

lemma step_store_other:
  assumes "step J ds t st = Some st'" "k \<noteq> mapper_key J (ds ! w_i (workers st ! t))"
  shows "store st' k = store st k"
  using assms(1)
proof (cases rule: step_cases)
  case lookup
  with assms(2) show ?thesis by (simp add: cur_key_def split: option.splits)
next
  case (writeback x)
  with assms(2) show ?thesis by (simp add: cur_key_def)
qed simp_all

lemma record_events_unfold:
  "record_events J t =
   (\<lambda>r. [Acquire t (mapper_key J r), Lookup t (mapper_key J r),
         Merge t (mapper_key J r) (mapper_value J r), Release t (mapper_key J r)])"
  by (rule ext) (simp add: record_events_def)

lemma run_sum_prefix:
  "run_sched sum_by_parity [1, 3, 2] [0, 1, 0] (exec_init 3 Map.empty 2) =
   \<lparr>store = [1 \<mapsto> 0], held = [1 \<mapsto> 0],
    workers = [\<lparr>w_begin = 0, w_end = 1, w_i = 0, w_pc = Loaded 0\<rparr>,
               \<lparr>w_begin = 1, w_end = 3, w_i = 1, w_pc = LoopHead\<rparr>],
    events = [Acquire 0 1, Lookup 0 1]\<rparr>"
  by (simp add: exec_init_def init_sys_def work_ranges_def new_task_def start_def
      sum_by_parity_def step_def store_lock_def store_index_def store_unlock_def fun_upd_twist)

lemma finished_run_workers:
  fixes J :: "('r, 'k, 'v) job_types"
  assumes "1 \<le> ntask" "ntask < 2 ^ 31" "length ds < 2 ^ 64"
    and "exec J ds s0 ntask sched = Finished st"
  shows "(\<exists>tasks ts. exec_create (length ds) ntask = Inr tasks \<and> cells tasks = map Some ts \<and>
            length (workers st) = length ts \<and>
            (\<forall>t < length ts.
               w_begin (workers st ! t) = t_begin (ts ! t) \<and>
               w_end (workers st ! t) = t_end (ts ! t) \<and>
               filter (\<lambda>e. owner e = t) (events st) =
                 concat (map (\<lambda>r. [Acquire t (mapper_key J r), Lookup t (mapper_key J r),
                                    Merge t (mapper_key J r) (mapper_value J r),
                                    Release t (mapper_key J r)])
                           (slice ds (t_begin (ts ! t)) (t_end (ts ! t)))))) \<and>
         store st = fold (merge_into J) (merged (events st)) s0 \<and>
         (\<forall>u st1 st2 k.
            step J ds u st1 = Some st2 \<and> k \<noteq> mapper_key J (ds ! w_i (workers st1 ! u)) \<longrightarrow>
            store st2 k = store st1 k)"
proof (intro conjI)
  let ?ts = "work_ranges (length ds) (nat ntask)"
  let ?a = "\<lparr>cells = map Some ?ts, touched = [0..ntask - 2] @ [ntask - 1]\<rparr>"
  have st: "st = run_sched J ds sched (exec_init (length ds) s0 ntask)"
    and inv: "sys_inv J ds s0 st"
    using exec_state[OF assms(1,2,3), of J s0 sched st] assms(4) by simp_all
  have fin: "list_all finished (workers st)"
    using assms(4) exec_run[OF assms(1,2,3), of J s0 sched] by (auto simp: st split: if_splits)
  have len: "length (workers st) = length ?ts"
    using run_workers_ranges(1)[OF assms(1), of J ds sched s0] assms(1)
    by (simp add: st length_work_ranges)
  have wb: "map w_begin (workers st) = map t_begin ?ts"
    and we: "map w_end (workers st) = map t_end ?ts"
    using run_workers_ranges(2,3)[OF assms(1), of J ds sched s0] by (simp_all add: st)
  have per: "w_begin (workers st ! t) = t_begin (?ts ! t) \<and>
             w_end (workers st ! t) = t_end (?ts ! t) \<and>
             filter (\<lambda>e. owner e = t) (events st) =
               concat (map (\<lambda>r. [Acquire t (mapper_key J r), Lookup t (mapper_key J r),
                                  Merge t (mapper_key J r) (mapper_value J r),
                                  Release t (mapper_key J r)])
                         (slice ds (t_begin (?ts ! t)) (t_end (?ts ! t))))"
    if t: "t < length ?ts" for t
  proof -
    from t len have t': "t < length (workers st)" by simp
    have b: "w_begin (workers st ! t) = t_begin (?ts ! t)"
      using arg_cong[OF wb, of "\<lambda>xs. xs ! t"] t t' by simp
    have e: "w_end (workers st ! t) = t_end (?ts ! t)"
      using arg_cong[OF we, of "\<lambda>xs. xs ! t"] t t' by simp
    from finished_events[OF inv fin t'] b e show ?thesis
      by (simp add: record_events_unfold)
  qed
  have "exec_create (length ds) ntask = Inr ?a" using assms(1,2,3) by (rule exec_create_ok)
  moreover have "cells ?a = map Some ?ts" by simp
  ultimately show "\<exists>tasks ts. exec_create (length ds) ntask = Inr tasks \<and>
            cells tasks = map Some ts \<and> length (workers st) = length ts \<and>
            (\<forall>t < length ts.
               w_begin (workers st ! t) = t_begin (ts ! t) \<and>
               w_end (workers st ! t) = t_end (ts ! t) \<and>
               filter (\<lambda>e. owner e = t) (events st) =
                 concat (map (\<lambda>r. [Acquire t (mapper_key J r), Lookup t (mapper_key J r),
                                    Merge t (mapper_key J r) (mapper_value J r),
                                    Release t (mapper_key J r)])
                           (slice ds (t_begin (ts ! t)) (t_end (ts ! t)))))"
    using len per by blast
  show "store st = fold (merge_into J) (merged (events st)) s0"
    by (rule finished_store[OF inv fin])
  show "\<forall>u st1 st2 k.
            step J ds u st1 = Some st2 \<and> k \<noteq> mapper_key J (ds ! w_i (workers st1 ! u)) \<longrightarrow>
            store st2 k = store st1 k"
  proof (intro allI impI, elim conjE)
    fix u st1 st2 k
    assume "step J ds u st1 = Some st2" "k \<noteq> mapper_key J (ds ! w_i (workers st1 ! u))"
    then show "store st2 k = store st1 k" by (rule step_store_other)
  qed
qed

text \<open>
  Claim C5.  \<^verbatim>\<open>exec\<close> has finished runs, and in every finished run worker \<open>t\<close> has the
  range of task \<open>t\<close> and its events are, for the records of that range in dataset order,
  the four events of the loop body: the lock of the record's key is acquired, the entry
  of that key is looked up (and created with the default value when it is missing), the
  record's value is merged into it, the lock is released.  The store is then the
  caller's store with these merges applied.  In every state a run reaches, finished or
  not, the events of worker \<open>t\<close> are these four for each record from the begin of its
  range up to where it is, in dataset order, and the first events of the body it has
  begun.  No step of a worker changes the entry of a key other than the key of the
  record the worker is at.
\<close>

theorem worker_processes_range_in_order:
  fixes J :: "('r, 'k, 'v) job_types"
  assumes "1 \<le> ntask" "ntask < 2 ^ 31" "length ds < 2 ^ 64"
  shows "(\<exists>sched st. exec J ds s0 ntask sched = Finished st) \<and>
         (\<forall>sched st. exec J ds s0 ntask sched = Finished st \<longrightarrow>
            (\<exists>tasks ts. exec_create (length ds) ntask = Inr tasks \<and>
               cells tasks = map Some ts \<and> length (workers st) = length ts \<and>
               (\<forall>t < length ts.
                  w_begin (workers st ! t) = t_begin (ts ! t) \<and>
                  w_end (workers st ! t) = t_end (ts ! t) \<and>
                  filter (\<lambda>e. owner e = t) (events st) =
                    concat (map (\<lambda>r. [Acquire t (mapper_key J r), Lookup t (mapper_key J r),
                                       Merge t (mapper_key J r) (mapper_value J r),
                                       Release t (mapper_key J r)])
                              (slice ds (t_begin (ts ! t)) (t_end (ts ! t)))))) \<and>
            store st = fold (merge_into J) (merged (events st)) s0) \<and>
         (\<forall>sched st t.
            (exec J ds s0 ntask sched = Running st \<or> exec J ds s0 ntask sched = Finished st) \<and>
            t < length (workers st) \<longrightarrow>
            w_begin (workers st ! t) \<le> w_i (workers st ! t) \<and>
            w_i (workers st ! t) \<le> w_end (workers st ! t) \<and>
            filter (\<lambda>e. owner e = t) (events st) =
              concat (map (\<lambda>r. [Acquire t (mapper_key J r), Lookup t (mapper_key J r),
                                 Merge t (mapper_key J r) (mapper_value J r),
                                 Release t (mapper_key J r)])
                        (slice ds (w_begin (workers st ! t)) (w_i (workers st ! t)))) @
              take (pc_rank (w_pc (workers st ! t)))
                [Acquire t (mapper_key J (ds ! w_i (workers st ! t))),
                 Lookup t (mapper_key J (ds ! w_i (workers st ! t))),
                 Merge t (mapper_key J (ds ! w_i (workers st ! t)))
                   (mapper_value J (ds ! w_i (workers st ! t))),
                 Release t (mapper_key J (ds ! w_i (workers st ! t)))]) \<and>
         (\<forall>u st1 st2 k.
            step J ds u st1 = Some st2 \<and> k \<noteq> mapper_key J (ds ! w_i (workers st1 ! u)) \<longrightarrow>
            store st2 k = store st1 k)"
proof (intro conjI)
  show "\<exists>sched st. exec J ds s0 ntask sched = Finished st"
    using assms by (rule exec_can_finish)
  show "\<forall>sched st. exec J ds s0 ntask sched = Finished st \<longrightarrow>
            (\<exists>tasks ts. exec_create (length ds) ntask = Inr tasks \<and>
               cells tasks = map Some ts \<and> length (workers st) = length ts \<and>
               (\<forall>t < length ts.
                  w_begin (workers st ! t) = t_begin (ts ! t) \<and>
                  w_end (workers st ! t) = t_end (ts ! t) \<and>
                  filter (\<lambda>e. owner e = t) (events st) =
                    concat (map (\<lambda>r. [Acquire t (mapper_key J r), Lookup t (mapper_key J r),
                                       Merge t (mapper_key J r) (mapper_value J r),
                                       Release t (mapper_key J r)])
                              (slice ds (t_begin (ts ! t)) (t_end (ts ! t)))))) \<and>
            store st = fold (merge_into J) (merged (events st)) s0"
  proof (intro allI impI)
    fix sched st assume e: "exec J ds s0 ntask sched = Finished st"
    note f = finished_run_workers[OF assms e]
    from f[THEN conjunct1] f[THEN conjunct2, THEN conjunct1]
    show "(\<exists>tasks ts. exec_create (length ds) ntask = Inr tasks \<and>
               cells tasks = map Some ts \<and> length (workers st) = length ts \<and>
               (\<forall>t < length ts.
                  w_begin (workers st ! t) = t_begin (ts ! t) \<and>
                  w_end (workers st ! t) = t_end (ts ! t) \<and>
                  filter (\<lambda>e. owner e = t) (events st) =
                    concat (map (\<lambda>r. [Acquire t (mapper_key J r), Lookup t (mapper_key J r),
                                       Merge t (mapper_key J r) (mapper_value J r),
                                       Release t (mapper_key J r)])
                              (slice ds (t_begin (ts ! t)) (t_end (ts ! t)))))) \<and>
            store st = fold (merge_into J) (merged (events st)) s0"
      by (rule conjI)
  qed
  show "\<forall>sched st t.
            (exec J ds s0 ntask sched = Running st \<or> exec J ds s0 ntask sched = Finished st) \<and>
            t < length (workers st) \<longrightarrow>
            w_begin (workers st ! t) \<le> w_i (workers st ! t) \<and>
            w_i (workers st ! t) \<le> w_end (workers st ! t) \<and>
            filter (\<lambda>e. owner e = t) (events st) =
              concat (map (\<lambda>r. [Acquire t (mapper_key J r), Lookup t (mapper_key J r),
                                 Merge t (mapper_key J r) (mapper_value J r),
                                 Release t (mapper_key J r)])
                        (slice ds (w_begin (workers st ! t)) (w_i (workers st ! t)))) @
              take (pc_rank (w_pc (workers st ! t)))
                [Acquire t (mapper_key J (ds ! w_i (workers st ! t))),
                 Lookup t (mapper_key J (ds ! w_i (workers st ! t))),
                 Merge t (mapper_key J (ds ! w_i (workers st ! t)))
                   (mapper_value J (ds ! w_i (workers st ! t))),
                 Release t (mapper_key J (ds ! w_i (workers st ! t)))]"
  proof (intro allI impI, elim conjE)
    fix sched st t
    assume r: "exec J ds s0 ntask sched = Running st \<or> exec J ds s0 ntask sched = Finished st"
      and t: "t < length (workers st)"
    have inv: "sys_inv J ds s0 st" by (rule exec_state(2)[OF assms r])
    then have "wf_worker ds (workers st ! t)" using t by (simp add: sys_inv_def wf_sys_nth)
    then have b: "w_begin (workers st ! t) \<le> w_i (workers st ! t)"
        "w_i (workers st ! t) \<le> w_end (workers st ! t)"
      by (simp_all add: wf_worker_def)
    from inv t
    have "filter (\<lambda>e. owner e = t) (events st) = done_events J ds t (workers st ! t)"
      by (simp add: sys_inv_def events_inv_def)
    then have "filter (\<lambda>e. owner e = t) (events st) =
              concat (map (\<lambda>r. [Acquire t (mapper_key J r), Lookup t (mapper_key J r),
                                 Merge t (mapper_key J r) (mapper_value J r),
                                 Release t (mapper_key J r)])
                        (slice ds (w_begin (workers st ! t)) (w_i (workers st ! t)))) @
              take (pc_rank (w_pc (workers st ! t)))
                [Acquire t (mapper_key J (ds ! w_i (workers st ! t))),
                 Lookup t (mapper_key J (ds ! w_i (workers st ! t))),
                 Merge t (mapper_key J (ds ! w_i (workers st ! t)))
                   (mapper_value J (ds ! w_i (workers st ! t))),
                 Release t (mapper_key J (ds ! w_i (workers st ! t)))]"
      by (simp add: done_events_def record_events_unfold)
    with b show "w_begin (workers st ! t) \<le> w_i (workers st ! t) \<and>
            w_i (workers st ! t) \<le> w_end (workers st ! t) \<and>
            filter (\<lambda>e. owner e = t) (events st) =
              concat (map (\<lambda>r. [Acquire t (mapper_key J r), Lookup t (mapper_key J r),
                                 Merge t (mapper_key J r) (mapper_value J r),
                                 Release t (mapper_key J r)])
                        (slice ds (w_begin (workers st ! t)) (w_i (workers st ! t)))) @
              take (pc_rank (w_pc (workers st ! t)))
                [Acquire t (mapper_key J (ds ! w_i (workers st ! t))),
                 Lookup t (mapper_key J (ds ! w_i (workers st ! t))),
                 Merge t (mapper_key J (ds ! w_i (workers st ! t)))
                   (mapper_value J (ds ! w_i (workers st ! t))),
                 Release t (mapper_key J (ds ! w_i (workers st ! t)))]"
      by (intro conjI)
  qed
  show "\<forall>u st1 st2 k.
            step J ds u st1 = Some st2 \<and> k \<noteq> mapper_key J (ds ! w_i (workers st1 ! u)) \<longrightarrow>
            store st2 k = store st1 k"
  proof (intro allI impI, elim conjE)
    fix u st1 st2 k
    assume "step J ds u st1 = Some st2" "k \<noteq> mapper_key J (ds ! w_i (workers st1 ! u))"
    then show "store st2 k = store st1 k" by (rule step_store_other)
  qed
qed

text \<open>
  The theorem on two runs of the job that sums by parity with two workers (worker 0 has
  the record 1, worker 1 the records 3 and 2): a finished run, and a run stopped after
  three entries of the schedule, when worker 0 has looked up the entry of key 1 and
  worker 1 has not moved.
\<close>

theorem worker_processes_range_in_order_witness:
  "\<exists>st st'.
        exec sum_by_parity [1, 3, 2] Map.empty 2 [0, 1, 0, 1, 0, 0, 1, 1, 1, 1, 1, 1, 1, 1] =
          Finished st \<and>
        filter (\<lambda>e. owner e = 0) (events st) =
          [Acquire 0 1, Lookup 0 1, Merge 0 1 1, Release 0 1] \<and>
        filter (\<lambda>e. owner e = 1) (events st) =
          [Acquire 1 1, Lookup 1 1, Merge 1 1 3, Release 1 1,
           Acquire 1 0, Lookup 1 0, Merge 1 0 2, Release 1 0] \<and>
        store st = fold (merge_into sum_by_parity) (merged (events st)) Map.empty \<and>
        merged (events st) = [(1, 1), (1, 3), (0, 2)] \<and>
        (\<exists>tasks ts. exec_create (length [1, 3, 2 :: nat]) 2 = Inr tasks \<and>
            cells tasks = map Some ts \<and> length (workers st) = length ts \<and>
            (\<forall>t < length ts.
               w_begin (workers st ! t) = t_begin (ts ! t) \<and>
               w_end (workers st ! t) = t_end (ts ! t) \<and>
               filter (\<lambda>e. owner e = t) (events st) =
                 concat (map (\<lambda>r. [Acquire t (mapper_key sum_by_parity r),
                                    Lookup t (mapper_key sum_by_parity r),
                                    Merge t (mapper_key sum_by_parity r)
                                      (mapper_value sum_by_parity r),
                                    Release t (mapper_key sum_by_parity r)])
                           (slice [1, 3, 2] (t_begin (ts ! t)) (t_end (ts ! t)))))) \<and>
        exec sum_by_parity [1, 3, 2] Map.empty 2 [0, 1, 0] = Running st' \<and>
        filter (\<lambda>e. owner e = 0) (events st') = [Acquire 0 1, Lookup 0 1] \<and>
        filter (\<lambda>e. owner e = 1) (events st') = []"
proof -
  let ?st = "\<lparr>store = [1 \<mapsto> 4, 0 \<mapsto> 2 :: nat], held = (Map.empty :: nat \<rightharpoonup> nat),
    workers = [\<lparr>w_begin = 0, w_end = 1, w_i = 1, w_pc = (LoopHead :: nat pc)\<rparr>,
               \<lparr>w_begin = 1, w_end = 3, w_i = 3, w_pc = LoopHead\<rparr>],
    events = [Acquire 0 1, Lookup 0 1, Merge 0 1 1, Release 0 1,
              Acquire 1 1, Lookup 1 1, Merge 1 1 3, Release 1 1,
              Acquire 1 0, Lookup 1 0, Merge 1 0 2, Release 1 0]\<rparr>"
  let ?st' = "\<lparr>store = [1 \<mapsto> 0 :: nat], held = [1 \<mapsto> 0 :: nat],
    workers = [\<lparr>w_begin = 0, w_end = 1, w_i = 0, w_pc = Loaded (0 :: nat)\<rparr>,
               \<lparr>w_begin = 1, w_end = 3, w_i = 1, w_pc = LoopHead\<rparr>],
    events = [Acquire 0 1, Lookup 0 (1 :: nat)] :: (nat, nat) event list\<rparr>"
  have e: "exec sum_by_parity [1, 3, 2] Map.empty 2 [0, 1, 0, 1, 0, 0, 1, 1, 1, 1, 1, 1, 1, 1] =
            Finished ?st"
  proof (rule exec_finishedI[where n = 3])
    show "run_sched sum_by_parity [1, 3, 2] [0, 1, 0, 1, 0, 0, 1, 1, 1, 1, 1, 1, 1, 1]
            (exec_init 3 Map.empty 2) = ?st"
      by (rule run_sum_two)
  qed (simp_all add: finished_def)
  have e': "exec sum_by_parity [1, 3, 2] Map.empty 2 [0, 1, 0] = Running ?st'"
  proof (rule exec_runningI[where n = 3])
    show "run_sched sum_by_parity [1, 3, 2] [0, 1, 0] (exec_init 3 Map.empty 2) = ?st'"
      by (rule run_sum_prefix)
  qed (simp_all add: finished_def)
  have v: "(1::int) \<le> 2" "(2::int) < 2 ^ 31" "length [1, 3, 2 :: nat] < 2 ^ 64" by simp_all
  note th = worker_processes_range_in_order[OF v, of sum_by_parity Map.empty]
  note fin = th[THEN conjunct2, THEN conjunct1, rule_format, OF e]
  note pre = th[THEN conjunct2, THEN conjunct2, THEN conjunct1, rule_format]
  have f0: "filter (\<lambda>e. owner e = 0) (events ?st) =
          [Acquire 0 1, Lookup 0 1, Merge 0 1 1, Release 0 1]"
    by simp
  have f1: "filter (\<lambda>e. owner e = 1) (events ?st) =
          [Acquire 1 1, Lookup 1 1, Merge 1 1 3, Release 1 1,
           Acquire 1 0, Lookup 1 0, Merge 1 0 2, Release 1 0]"
    by simp
  have m: "merged (events ?st) = [(1, 1), (1, 3), (0, 2)]" by simp
  have t0: "0 < length (workers ?st')" and t1: "1 < length (workers ?st')" by simp_all
  have g0: "filter (\<lambda>e. owner e = 0) (events ?st') = [Acquire 0 1, Lookup 0 1]"
    using pre[OF conjI[OF disjI1[OF e'] t0], THEN conjunct2, THEN conjunct2]
    by (simp add: slice_def pc_rank_def sum_by_parity_def)
  have g1: "filter (\<lambda>e. owner e = 1) (events ?st') = []"
    using pre[OF conjI[OF disjI1[OF e'] t1], THEN conjunct2, THEN conjunct2]
    by (simp add: slice_def pc_rank_def sum_by_parity_def)
  show ?thesis
    by (rule exI[of _ ?st], rule exI[of _ ?st'],
        intro conjI e f0 f1 m fin[THEN conjunct1] fin[THEN conjunct2] e' g0 g1)
qed

section \<open>The locks of one worker\<close>

text \<open>
  Claim C10.  In every state a run of \<^verbatim>\<open>exec\<close> reaches, worker \<open>t\<close> holds the lock of
  the key of the record it is at while it is between \<^verbatim>\<open>lock\<close> and \<^verbatim>\<open>unlock\<close>, and no
  lock otherwise; so it holds at most one lock, and none when it is back at the head of
  the loop.  Its events so far are the four events of each record it has passed, each
  four with one and the same key (acquire, lookup, merge, release), followed by the
  first events of the body it has begun, again with the key of that one record.
\<close>

theorem worker_lock_discipline:
  fixes J :: "('r, 'k, 'v) job_types"
  assumes "1 \<le> ntask" "ntask < 2 ^ 31" "length ds < 2 ^ 64"
    and "exec J ds s0 ntask sched = Running st \<or> exec J ds s0 ntask sched = Finished st"
    and "t < length (workers st)"
  shows "{k. held st k = Some t} =
           (if in_cs (workers st ! t) then {mapper_key J (ds ! w_i (workers st ! t))} else {}) \<and>
         card {k. held st k = Some t} \<le> 1 \<and>
         (w_pc (workers st ! t) = LoopHead \<longrightarrow> (\<forall>k. held st k \<noteq> Some t)) \<and>
         filter (\<lambda>e. owner e = t) (events st) =
           concat (map (\<lambda>r. [Acquire t (mapper_key J r), Lookup t (mapper_key J r),
                              Merge t (mapper_key J r) (mapper_value J r),
                              Release t (mapper_key J r)])
                     (slice ds (w_begin (workers st ! t)) (w_i (workers st ! t)))) @
           take (pc_rank (w_pc (workers st ! t)))
             [Acquire t (mapper_key J (ds ! w_i (workers st ! t))),
              Lookup t (mapper_key J (ds ! w_i (workers st ! t))),
              Merge t (mapper_key J (ds ! w_i (workers st ! t)))
                (mapper_value J (ds ! w_i (workers st ! t))),
              Release t (mapper_key J (ds ! w_i (workers st ! t)))]"
proof -
  have inv: "sys_inv J ds s0 st" by (rule exec_state(2)[OF assms(1,2,3,4)])
  then have li: "lock_inv J ds st" and ei: "events_inv J ds st"
    by (simp_all add: sys_inv_def)
  have h: "{k. held st k = Some t} =
           (if in_cs (workers st ! t) then {mapper_key J (ds ! w_i (workers st ! t))} else {})"
  proof (cases "in_cs (workers st ! t)")
    case True
    have "held st k = Some t \<longleftrightarrow> k = cur_key J ds (workers st ! t)" for k
      using lock_inv_held[OF li, of k t] lock_inv_cs[OF li assms(5) True] by auto
    with True show ?thesis by (auto simp: cur_key_def)
  next
    case False
    have "held st k \<noteq> Some t" for k
      using lock_inv_held[OF li, of k t] False by auto
    with False show ?thesis by simp
  qed
  then have c: "card {k. held st k = Some t} \<le> 1" by simp
  have l: "w_pc (workers st ! t) = LoopHead \<longrightarrow> (\<forall>k. held st k \<noteq> Some t)"
  proof (intro impI allI)
    fix k assume "w_pc (workers st ! t) = LoopHead"
    then have "\<not> in_cs (workers st ! t)" by (simp add: in_cs_def)
    with lock_inv_held[OF li, of k t] show "held st k \<noteq> Some t" by auto
  qed
  from ei assms(5)
  have "filter (\<lambda>e. owner e = t) (events st) = done_events J ds t (workers st ! t)"
    by (simp add: events_inv_def)
  then have e: "filter (\<lambda>e. owner e = t) (events st) =
           concat (map (\<lambda>r. [Acquire t (mapper_key J r), Lookup t (mapper_key J r),
                              Merge t (mapper_key J r) (mapper_value J r),
                              Release t (mapper_key J r)])
                     (slice ds (w_begin (workers st ! t)) (w_i (workers st ! t)))) @
           take (pc_rank (w_pc (workers st ! t)))
             [Acquire t (mapper_key J (ds ! w_i (workers st ! t))),
              Lookup t (mapper_key J (ds ! w_i (workers st ! t))),
              Merge t (mapper_key J (ds ! w_i (workers st ! t)))
                (mapper_value J (ds ! w_i (workers st ! t))),
              Release t (mapper_key J (ds ! w_i (workers st ! t)))]"
    by (simp add: done_events_def record_events_unfold)
  from h c l e show ?thesis by (intro conjI)
qed

text \<open>
  The theorem on a run of the job that sums by parity with two workers, stopped after
  three entries of the schedule: worker 0 has locked key 1 and looked its entry up;
  worker 1, whose first record has key 1 too, has been passed over and holds no lock.
\<close>

theorem worker_lock_discipline_witness:
  "\<exists>st. exec sum_by_parity [1, 3, 2] Map.empty 2 [0, 1, 0] = Running st \<and>
        {k. held st k = Some 0} = {1} \<and> {k. held st k = Some 1} = {} \<and>
        w_pc (workers st ! 0) = Loaded 0 \<and> w_pc (workers st ! 1) = LoopHead \<and>
        filter (\<lambda>e. owner e = 0) (events st) = [Acquire 0 1, Lookup 0 1] \<and>
        filter (\<lambda>e. owner e = 1) (events st) = []"
proof -
  let ?st = "\<lparr>store = [1 \<mapsto> 0 :: nat], held = [1 \<mapsto> 0 :: nat],
    workers = [\<lparr>w_begin = 0, w_end = 1, w_i = 0, w_pc = Loaded (0 :: nat)\<rparr>,
               \<lparr>w_begin = 1, w_end = 3, w_i = 1, w_pc = LoopHead\<rparr>],
    events = [Acquire 0 1, Lookup 0 (1 :: nat)] :: (nat, nat) event list\<rparr>"
  have e: "exec sum_by_parity [1, 3, 2] Map.empty 2 [0, 1, 0] = Running ?st"
  proof (rule exec_runningI[where n = 3])
    show "run_sched sum_by_parity [1, 3, 2] [0, 1, 0] (exec_init 3 Map.empty 2) = ?st"
      by (rule run_sum_prefix)
  qed (simp_all add: finished_def)
  have v: "(1::int) \<le> 2" "(2::int) < 2 ^ 31" "length [1, 3, 2 :: nat] < 2 ^ 64" by simp_all
  have t0: "0 < length (workers ?st)" and t1: "1 < length (workers ?st)" by simp_all
  note th0 = worker_lock_discipline[OF v disjI1[OF e] t0]
  note th1 = worker_lock_discipline[OF v disjI1[OF e] t1]
  have h0: "{k. held ?st k = Some 0} = {1}"
    using th0[THEN conjunct1] by (simp add: in_cs_def sum_by_parity_def)
  have h1: "{k. held ?st k = Some 1} = {}"
    using th1[THEN conjunct1] by (simp add: in_cs_def sum_by_parity_def)
  have f0: "filter (\<lambda>e. owner e = 0) (events ?st) = [Acquire 0 1, Lookup 0 1]"
    using th0[THEN conjunct2, THEN conjunct2, THEN conjunct2]
    by (simp add: slice_def pc_rank_def sum_by_parity_def)
  have f1: "filter (\<lambda>e. owner e = 1) (events ?st) = []"
    using th1[THEN conjunct2, THEN conjunct2, THEN conjunct2]
    by (simp add: slice_def pc_rank_def sum_by_parity_def)
  have p: "w_pc (workers ?st ! 0) = Loaded 0" "w_pc (workers ?st ! 1) = LoopHead" by simp_all
  show ?thesis by (rule exI[of _ ?st], intro conjI e h0 h1 f0 f1 p)
qed

section \<open>The subscripts of the task array\<close>

text \<open>
  Claim C9.  With \<open>1 \<le> ntask\<close>, \<^verbatim>\<open>exec\<close> ends in no error, and the subscripts it has made
  on its task array, in the order it has made them, are \<open>0..ntask-2\<close> by the creating
  loop, \<open>ntask-1\<close> for the last task, \<open>0..ntask-1\<close> by the starting loop and \<open>0..ntask-1\<close>
  by the deleting loop; each of them is in the bounds of the array, which has \<open>ntask\<close>
  cells, and together they are exactly the indices \<open>0..ntask-1\<close>.  Without the
  precondition \<^verbatim>\<open>exec\<close> ends in an error: with a negative \<open>ntask\<close> the array cannot be
  allocated, with \<open>ntask = 0\<close> the division of line 206 fails; and with \<open>ntask = 0\<close>
  lines 207 to 211, run on the array of line 204 with any \<^verbatim>\<open>len\<close>, fail at the subscript
  \<open>ntask-1 = -1\<close>, which is out of the bounds of the empty array.
\<close>

theorem exec_task_array_in_bounds:
  fixes J :: "('r, 'k, 'v) job_types"
  shows "(1 \<le> ntask \<and> ntask < 2 ^ 31 \<and> length ds < 2 ^ 64 \<longrightarrow>
           (\<exists>st a. (exec_logged J ds s0 ntask sched = Running (st, a) \<or>
                     exec_logged J ds s0 ntask sched = Finished (st, a)) \<and>
                    (exec J ds s0 ntask sched = Running st \<or>
                     exec J ds s0 ntask sched = Finished st) \<and>
                    length (cells a) = nat ntask \<and>
                    touched a = [0..ntask - 2] @ [ntask - 1] @ [0..ntask - 1] @ [0..ntask - 1] \<and>
                    list_all (in_bounds a) (touched a) \<and>
                    set (touched a) = {0..ntask - 1})) \<and>
         (ntask < 0 \<longrightarrow> exec J ds s0 ntask sched = Error BadArrayLength) \<and>
         exec J ds s0 0 sched = Error DivisionByZero \<and>
         (\<exists>a :: task array. new_array 0 = Inr a \<and> cells a = [] \<and> \<not> in_bounds a (- 1) \<and>
              exec_fill len (length ds) 0 a = Inl (OutOfBounds (- 1)))"
proof (intro conjI impI)
  assume "1 \<le> ntask \<and> ntask < 2 ^ 31 \<and> length ds < 2 ^ 64"
  then have v: "1 \<le> ntask" "ntask < 2 ^ 31" "length ds < 2 ^ 64" by simp_all
  let ?st = "run_sched J ds sched (exec_init (length ds) s0 ntask)"
  let ?a = "\<lparr>cells = map Some (work_ranges (length ds) (nat ntask)),
             touched = [0..ntask - 2] @ [ntask - 1] @ [0..ntask - 1] @ [0..ntask - 1]\<rparr>"
  have l: "exec_logged J ds s0 ntask sched = Running (?st, ?a) \<or>
           exec_logged J ds s0 ntask sched = Finished (?st, ?a)"
    unfolding exec_logged_run[OF v] by simp
  have e: "exec J ds s0 ntask sched = Running ?st \<or> exec J ds s0 ntask sched = Finished ?st"
    unfolding exec_run[OF v] by simp
  have len: "length (cells ?a) = nat ntask" using v by (simp add: length_work_ranges)
  have t: "touched ?a = [0..ntask - 2] @ [ntask - 1] @ [0..ntask - 1] @ [0..ntask - 1]"
    by simp
  have b: "list_all (in_bounds ?a) (touched ?a)"
    using v(1) by (auto simp add: list_all_iff in_bounds_def length_work_ranges)
  have s: "set (touched ?a) = {0..ntask - 1}" using v(1) by auto
  show "\<exists>st a. (exec_logged J ds s0 ntask sched = Running (st, a) \<or>
                     exec_logged J ds s0 ntask sched = Finished (st, a)) \<and>
                    (exec J ds s0 ntask sched = Running st \<or>
                     exec J ds s0 ntask sched = Finished st) \<and>
                    length (cells a) = nat ntask \<and>
                    touched a = [0..ntask - 2] @ [ntask - 1] @ [0..ntask - 1] @ [0..ntask - 1] \<and>
                    list_all (in_bounds a) (touched a) \<and>
                    set (touched a) = {0..ntask - 1}"
    by (rule exI[of _ ?st], rule exI[of _ ?a], intro conjI l e len t b s)
next
  assume "ntask < 0"
  then show "exec J ds s0 ntask sched = Error BadArrayLength"
    by (simp add: exec_def exec_logged_def exec_create_def new_array_def)
next
  show "exec J ds s0 0 sched = Error DivisionByZero"
    by (simp add: exec_def exec_logged_def exec_create_def new_array_def size_t_of_int_def)
next
  show "\<exists>a :: task array. new_array 0 = Inr a \<and> cells a = [] \<and> \<not> in_bounds a (- 1) \<and>
              exec_fill len (length ds) 0 a = Inl (OutOfBounds (- 1))"
    by (simp add: new_array_def exec_fill_def create_loop.simps array_set_def in_bounds_def)
qed

text \<open>
  The theorem on a finished run of the job that sums by parity with two workers: the
  array has two cells, and the subscripts are 0 (creating loop), 1 (last task), 0 and 1
  (starting loop), 0 and 1 (deleting loop); and on the same job with \<open>ntask = -1\<close>.
\<close>

theorem exec_task_array_in_bounds_witness:
  "\<exists>st a. exec_logged sum_by_parity [1, 3, 2] Map.empty 2
             [0, 1, 0, 1, 0, 0, 1, 1, 1, 1, 1, 1, 1, 1] = Finished (st, a) \<and>
          exec sum_by_parity [1, 3, 2] Map.empty 2
             [0, 1, 0, 1, 0, 0, 1, 1, 1, 1, 1, 1, 1, 1] = Finished st \<and>
          length (cells a) = 2 \<and>
          touched a = [0, 1, 0, 1, 0, 1] \<and>
          list_all (in_bounds a) (touched a) \<and>
          set (touched a) = {0..1} \<and>
          exec sum_by_parity [1, 3, 2] Map.empty (- 1) [] = Error BadArrayLength"
proof -
  let ?sched = "[0, 1, 0, 1, 0, 0, 1, 1, 1, 1, 1, 1, 1, 1] :: nat list"
  let ?st = "\<lparr>store = [1 \<mapsto> 4, 0 \<mapsto> 2 :: nat], held = (Map.empty :: nat \<rightharpoonup> nat),
    workers = [\<lparr>w_begin = 0, w_end = 1, w_i = 1, w_pc = (LoopHead :: nat pc)\<rparr>,
               \<lparr>w_begin = 1, w_end = 3, w_i = 3, w_pc = LoopHead\<rparr>],
    events = [Acquire 0 1, Lookup 0 1, Merge 0 1 1, Release 0 1,
              Acquire 1 1, Lookup 1 1, Merge 1 1 3, Release 1 1,
              Acquire 1 0, Lookup 1 0, Merge 1 0 2, Release 1 0]\<rparr>"
  have e: "exec sum_by_parity [1, 3, 2] Map.empty 2 ?sched = Finished ?st"
  proof (rule exec_finishedI[where n = 3])
    show "run_sched sum_by_parity [1, 3, 2] ?sched (exec_init 3 Map.empty 2) = ?st"
      by (rule run_sum_two)
  qed (simp_all add: finished_def)
  have v: "(1::int) \<le> 2 \<and> (2::int) < 2 ^ 31 \<and> length [1, 3, 2 :: nat] < 2 ^ 64" by simp
  have u: "[0..(0::int)] = [0]" "[0..(1::int)] = [0, 1]" by (simp_all add: upto_rec1)
  from exec_task_array_in_bounds[where J = sum_by_parity and ds = "[1, 3, 2]"
      and ?s0.0 = Map.empty and ntask = 2 and sched = ?sched, THEN conjunct1, rule_format, OF v]
  obtain st a where
      l: "exec_logged sum_by_parity [1, 3, 2] Map.empty 2 ?sched = Running (st, a) \<or>
          exec_logged sum_by_parity [1, 3, 2] Map.empty 2 ?sched = Finished (st, a)"
    and c: "length (cells a) = nat 2"
    and t: "touched a = [0..2 - 2] @ [2 - 1] @ [0..2 - 1] @ [0..2 - 1]"
    and b: "list_all (in_bounds a) (touched a)"
    and s: "set (touched a) = {0..2 - 1}"
    by blast
  from l e have f: "exec_logged sum_by_parity [1, 3, 2] Map.empty 2 ?sched = Finished (?st, a)"
    by (auto simp add: exec_def)
  have c': "length (cells a) = 2" using c by simp
  have t': "touched a = [0, 1, 0, 1, 0, 1]" using t by (simp add: u)
  have s': "set (touched a) = {0..1}" using s by simp
  have n: "exec sum_by_parity [1, 3, 2] Map.empty (- 1) [] = Error BadArrayLength"
    by (rule exec_task_array_in_bounds[where ntask = "- 1",
          THEN conjunct2, THEN conjunct1, rule_format]) simp
  show ?thesis
    by (rule exI[of _ ?st], rule exI[of _ a], intro conjI f e c' t' b s' n)
qed

end
